theory Spec2Isabelle
  imports Complex_Main "HOL-Library.Monad_Syntax" "HOL-Library.Sublist"
begin

section \<open>Data model\<close>

text \<open>
  A point is a pair of coordinates. The script computes with IEEE doubles; the model
  computes with the reals, so every statement below is about the algorithm with exact
  arithmetic (no rounding, no NaN, no infinities); a decimal constant of the source
  such as \<open>0.1\<close> or \<open>0.5\<close> is the rational it denotes. The Python exceptions the modelled
  code can raise are values of \<open>py_error\<close>; a result is \<open>py_error + 'a\<close>.
\<close>

type_synonym point = "real \<times> real"

datatype py_error = IndexError | ValueError | ZeroDivisionError

text \<open>\<open>np.hypot(a, b)\<close>: the Euclidean norm of \<open>(a, b)\<close>.\<close>

definition hypot :: "real \<Rightarrow> real \<Rightarrow> real" where
  "hypot a b = sqrt (a\<^sup>2 + b\<^sup>2)"

section \<open>Path tokenizer and sampler\<close>

subsection \<open>The regular expression of \<open>tokenize_path\<close>\<close>

text \<open>
  \<open>re.findall(r'[a-zA-Z]|[-+]?\d*\.?\d+(?:[eE][-+]?\d+)?', d)\<close>, line 17, on ASCII
  input. \<open>findall\<close> scans from the left: at each position it tries the first
  alternative (one letter), then the second (a number, greedy with backtracking), and
  moves one character on when neither matches.
\<close>

definition is_letter :: "char \<Rightarrow> bool" where
  "is_letter c = (c \<in> set ''abcdefghijklmnopqrstuvwxyzABCDEFGHIJKLMNOPQRSTUVWXYZ'')"

definition is_digit :: "char \<Rightarrow> bool" where
  "is_digit c = (c \<in> set ''0123456789'')"

definition is_sign :: "char \<Rightarrow> bool" where
  "is_sign c = (c \<in> set ''-+'')"

text \<open>\<open>[-+]?\<close>: the sign taken (if any) and the rest.\<close>

definition match_sign :: "string \<Rightarrow> string \<times> string" where
  "match_sign s = (case s of c # s' \<Rightarrow> if is_sign c then ([c], s') else ([], s) | [] \<Rightarrow> ([], s))"

text \<open>
  \<open>\d*\.?\d+\<close>: all the leading digits, a dot and all the digits after it when at
  least one digit follows the dot; otherwise backtracking leaves the leading digits
  alone, which must not be empty.
\<close>

definition match_mantissa :: "string \<Rightarrow> (string \<times> string) option" where
  "match_mantissa s =
     (let ds = takeWhile is_digit s; r = dropWhile is_digit s in
      case r of
        c # r1 \<Rightarrow>
          if c = CHR ''.'' \<and> takeWhile is_digit r1 \<noteq> []
          then Some (ds @ [c] @ takeWhile is_digit r1, dropWhile is_digit r1)
          else if ds \<noteq> [] then Some (ds, r) else None
      | [] \<Rightarrow> if ds \<noteq> [] then Some (ds, r) else None)"

text \<open>\<open>(?:[eE][-+]?\d+)?\<close>: the exponent when it is complete, nothing otherwise.\<close>

definition match_exponent :: "string \<Rightarrow> string \<times> string" where
  "match_exponent s =
     (case s of
        e # s1 \<Rightarrow>
          if e = CHR ''e'' \<or> e = CHR ''E'' then
            (let sg = fst (match_sign s1); s2 = snd (match_sign s1) in
             if takeWhile is_digit s2 \<noteq> []
             then (e # sg @ takeWhile is_digit s2, dropWhile is_digit s2)
             else ([], s))
          else ([], s)
      | [] \<Rightarrow> ([], s))"

text \<open>The second alternative at the head of \<open>s\<close>: the matched text and the rest.\<close>

definition match_number :: "string \<Rightarrow> (string \<times> string) option" where
  "match_number s =
     (case match_mantissa (snd (match_sign s)) of
        None \<Rightarrow> None
      | Some (m, r) \<Rightarrow>
          Some (fst (match_sign s) @ m @ fst (match_exponent r), snd (match_exponent r)))"

lemma match_sign_length: "length (snd (match_sign s)) \<le> length s"
  by (simp add: match_sign_def split: list.splits)

lemma match_mantissa_length:
  assumes "match_mantissa s = Some (m, r)"
  shows "length r < length s"
proof -
  have split: "length s = length (takeWhile is_digit s) + length (dropWhile is_digit s)"
    by (metis length_append takeWhile_dropWhile_id)
  show ?thesis
  proof (cases "dropWhile is_digit s")
    case Nil
    with assms split show ?thesis
      by (auto simp: match_mantissa_def Let_def split: if_splits)
  next
    case (Cons x r1)
    have le: "length (dropWhile is_digit r1) \<le> length r1"
      by (rule length_dropWhile_le)
    from split Cons have len: "length s = length (takeWhile is_digit s) + Suc (length r1)"
      by simp
    from assms Cons
    consider "r = dropWhile is_digit r1" | "takeWhile is_digit s \<noteq> []" "r = x # r1"
      by (auto simp: match_mantissa_def Let_def split: if_splits)
    then show ?thesis
    proof cases
      case 1
      with le len show ?thesis by simp
    next
      case 2
      with len show ?thesis by simp
    qed
  qed
qed

lemma match_exponent_length: "length (snd (match_exponent s)) \<le> length s"
proof -
  have "length (dropWhile is_digit (snd (match_sign t))) \<le> length t" for t
    using length_dropWhile_le[of is_digit "snd (match_sign t)"] match_sign_length[of t]
    by linarith
  then show ?thesis
    by (auto simp: match_exponent_def Let_def le_Suc_eq split: list.splits)
qed

lemma match_number_length:
  assumes "match_number s = Some (tok, rest)"
  shows "length rest < length s"
proof -
  from assms obtain m r where mr: "match_mantissa (snd (match_sign s)) = Some (m, r)"
    and rest: "rest = snd (match_exponent r)"
    by (auto simp: match_number_def split: option.splits)
  from match_mantissa_length[OF mr] match_sign_length[of s] match_exponent_length[of r] rest
  show ?thesis by simp
qed

function tokenize_path :: "string \<Rightarrow> string list" where
  "tokenize_path [] = []"
| "tokenize_path (c # cs) =
     (if is_letter c then [c] # tokenize_path cs
      else case match_number (c # cs) of
             Some (tok, rest) \<Rightarrow> tok # tokenize_path rest
           | None \<Rightarrow> tokenize_path cs)"
  by pat_completeness auto
termination
  by (relation "measure length") (auto dest: match_number_length)

subsection \<open>\<open>float\<close> on a token\<close>

text \<open>
  \<open>float(tok)\<close> on the tokens the regular expressions produce: a token that is a whole
  number literal has its decimal value; any other token (a command letter) raises
  ValueError.
\<close>

definition digit_val :: "char \<Rightarrow> nat" where
  "digit_val c = of_char c - 48"

definition digits_val :: "string \<Rightarrow> nat" where
  "digits_val ds = foldl (\<lambda>acc c. 10 * acc + digit_val c) 0 ds"

definition exponent_val :: "string \<Rightarrow> int" where
  "exponent_val s =
     (case s of
        [] \<Rightarrow> 0
      | e # s1 \<Rightarrow>
          (case s1 of
             [] \<Rightarrow> 0
           | c # s2 \<Rightarrow>
               if c = CHR ''-'' then - int (digits_val s2)
               else if c = CHR ''+'' then int (digits_val s2)
               else int (digits_val s1)))"

definition literal_val :: "string \<Rightarrow> real" where
  "literal_val s =
     (let s1 = snd (match_sign s);
          ip = takeWhile is_digit s1; r = dropWhile is_digit s1;
          fp = (case r of c # r1 \<Rightarrow> if c = CHR ''.'' then takeWhile is_digit r1 else [] | [] \<Rightarrow> []);
          r2 = (case r of c # r1 \<Rightarrow> if c = CHR ''.'' then dropWhile is_digit r1 else r | [] \<Rightarrow> r);
          m = real (digits_val ip) + real (digits_val fp) / 10 ^ length fp;
          v = m * 10 powi exponent_val r2
      in if fst (match_sign s) = ''-'' then - v else v)"

definition py_float :: "string \<Rightarrow> py_error + real" where
  "py_float tok =
     (case match_number tok of
        Some (t, rest) \<Rightarrow> if rest = [] then Inr (literal_val tok) else Inl ValueError
      | None \<Rightarrow> Inl ValueError)"

subsection \<open>\<open>sample_cubic_bezier\<close>\<close>

text \<open>\<open>np.linspace(0, 1, steps)\<close>: the \<open>steps\<close> values \<open>i / (steps - 1)\<close>.\<close>

definition linspace01 :: "nat \<Rightarrow> real list" where
  "linspace01 steps = map (\<lambda>i. real i / real (steps - 1)) [0..<steps]"

definition sample_cubic_bezier :: "point \<Rightarrow> point \<Rightarrow> point \<Rightarrow> point \<Rightarrow> nat \<Rightarrow> point list" where
  "sample_cubic_bezier p0 p1 p2 p3 steps =
     map (\<lambda>t.
        ((1 - t) ^ 3 * fst p0 + 3 * (1 - t)\<^sup>2 * t * fst p1 + 3 * (1 - t) * t\<^sup>2 * fst p2 + t ^ 3 * fst p3,
         (1 - t) ^ 3 * snd p0 + 3 * (1 - t)\<^sup>2 * t * snd p1 + 3 * (1 - t) * t\<^sup>2 * snd p2 + t ^ 3 * snd p3))
       (linspace01 steps)"

subsection \<open>\<open>parse_svg_paths_basic\<close>\<close>

text \<open>
  The state of the loop of lines 31-69. \<open>next(iterator)\<close> either raises StopIteration
  (caught at line 71: the polygon in progress is flushed and the polygons returned) or
  gives a token, on which \<open>float\<close> may raise ValueError (not caught).
\<close>

record parse_state =
  polygons :: "point list list"
  current_poly :: "point list"
  current_pos :: point
  start_pos :: point

datatype 'a fetch = StopIteration | Raised py_error | Fetched 'a "string list"

fun next_float :: "string list \<Rightarrow> real fetch" where
  "next_float [] = StopIteration"
| "next_float (t # ts) = (case py_float t of Inl e \<Rightarrow> Raised e | Inr v \<Rightarrow> Fetched v ts)"

text \<open>\<open>n\<close> times \<open>float(next(iterator))\<close> in a row, as each command reads its arguments.\<close>

fun next_floats :: "nat \<Rightarrow> string list \<Rightarrow> real list fetch" where
  "next_floats 0 ts = Fetched [] ts"
| "next_floats (Suc n) ts =
     (case next_float ts of
        StopIteration \<Rightarrow> StopIteration
      | Raised e \<Rightarrow> Raised e
      | Fetched v ts' \<Rightarrow>
          (case next_floats n ts' of
             StopIteration \<Rightarrow> StopIteration
           | Raised e \<Rightarrow> Raised e
           | Fetched vs ts'' \<Rightarrow> Fetched (v # vs) ts''))"

lemma next_float_length: "next_float ts = Fetched v ts' \<Longrightarrow> length ts' < length ts"
  by (cases ts) (auto split: sum.splits)

lemma next_floats_length: "next_floats n ts = Fetched vs ts' \<Longrightarrow> length ts' \<le> length ts"
proof (induction n arbitrary: ts vs ts')
  case 0
  then show ?case by simp
next
  case (Suc n)
  then show ?case
    by (fastforce split: fetch.splits dest: next_float_length)
qed

text \<open>\<open>if current_poly: polygons.append(current_poly)\<close>, lines 43-44 and 72-73.\<close>

definition flush :: "parse_state \<Rightarrow> point list list" where
  "flush st = (if current_poly st \<noteq> [] then polygons st @ [current_poly st] else polygons st)"

text \<open>\<open>str.upper\<close> on ASCII text.\<close>

definition upper_char :: "char \<Rightarrow> char" where
  "upper_char c =
     (if c \<in> set ''abcdefghijklmnopqrstuvwxyz'' then char_of (of_char c - (32::nat)) else c)"

definition upper :: "string \<Rightarrow> string" where
  "upper s = map upper_char s"

function parse_loop :: "string list \<Rightarrow> parse_state \<Rightarrow> py_error + point list list" where
  "parse_loop [] st = Inr (flush st)"
| "parse_loop (cmd # ts) st =
     (if cmd = ''M'' then
        (case next_floats 2 ts of
           StopIteration \<Rightarrow> Inr (flush st)
         | Raised e \<Rightarrow> Inl e
         | Fetched vs ts' \<Rightarrow>
             parse_loop ts'
               \<lparr>polygons = flush st, current_poly = [(vs ! 0, vs ! 1)],
                current_pos = (vs ! 0, vs ! 1), start_pos = (vs ! 0, vs ! 1)\<rparr>)
      else if cmd = ''L'' then
        (case next_floats 2 ts of
           StopIteration \<Rightarrow> Inr (flush st)
         | Raised e \<Rightarrow> Inl e
         | Fetched vs ts' \<Rightarrow>
             parse_loop ts'
               (st\<lparr>current_poly := current_poly st @ [(vs ! 0, vs ! 1)],
                   current_pos := (vs ! 0, vs ! 1)\<rparr>))
      else if cmd = ''C'' then
        (case next_floats 6 ts of
           StopIteration \<Rightarrow> Inr (flush st)
         | Raised e \<Rightarrow> Inl e
         | Fetched vs ts' \<Rightarrow>
             parse_loop ts'
               (st\<lparr>current_poly := current_poly st @
                      tl (sample_cubic_bezier (current_pos st) (vs ! 0, vs ! 1) (vs ! 2, vs ! 3)
                            (vs ! 4, vs ! 5) 20),
                   current_pos := (vs ! 4, vs ! 5)\<rparr>))
      else if upper cmd = ''Z'' then
        parse_loop ts
          (st\<lparr>current_poly := current_poly st @ [start_pos st], current_pos := start_pos st\<rparr>)
      else parse_loop ts st)"
  by pat_completeness auto
termination
  by (relation "measure (\<lambda>(ts, st). length ts)") (auto dest: next_floats_length simp: le_imp_less_Suc)

definition parse_svg_paths_basic :: "string \<Rightarrow> py_error + point list list" where
  "parse_svg_paths_basic d_str =
     parse_loop (tokenize_path d_str)
       \<lparr>polygons = [], current_poly = [], current_pos = (0, 0), start_pos = (0, 0)\<rparr>"

section \<open>Path extractor and classifier\<close>

subsection \<open>The numbers of a path\<close>

text \<open>
  \<open>re.findall(r'[-+]?\d*\.\d+|[-+]?\d+', d)\<close>, line 93: at each position a number
  with a dot and digits after it, else a whole number, else one character on.
\<close>

definition match_decimal :: "string \<Rightarrow> (string \<times> string) option" where
  "match_decimal s =
     (let sg = fst (match_sign s); s1 = snd (match_sign s);
          ds = takeWhile is_digit s1; r = dropWhile is_digit s1 in
      case r of
        c # r1 \<Rightarrow>
          if c = CHR ''.'' \<and> takeWhile is_digit r1 \<noteq> []
          then Some (sg @ ds @ [c] @ takeWhile is_digit r1, dropWhile is_digit r1)
          else None
      | [] \<Rightarrow> None)"

definition match_integer :: "string \<Rightarrow> (string \<times> string) option" where
  "match_integer s =
     (let sg = fst (match_sign s); s1 = snd (match_sign s) in
      if takeWhile is_digit s1 \<noteq> []
      then Some (sg @ takeWhile is_digit s1, dropWhile is_digit s1)
      else None)"

definition match_coord :: "string \<Rightarrow> (string \<times> string) option" where
  "match_coord s = (case match_decimal s of Some m \<Rightarrow> Some m | None \<Rightarrow> match_integer s)"

lemma match_coord_length:
  assumes "match_coord s = Some (tok, rest)"
  shows "length rest < length s"
proof -
  let ?s1 = "snd (match_sign s)"
  have split: "length ?s1 = length (takeWhile is_digit ?s1) + length (dropWhile is_digit ?s1)"
    by (metis length_append takeWhile_dropWhile_id)
  have s1: "length ?s1 \<le> length s"
    by (rule match_sign_length)
  from assms consider
      r1 where "dropWhile is_digit ?s1 = CHR ''.'' # r1" "rest = dropWhile is_digit r1"
    | "takeWhile is_digit ?s1 \<noteq> []" "rest = dropWhile is_digit ?s1"
    by (auto simp: match_coord_def match_decimal_def match_integer_def Let_def
          split: option.splits list.splits if_splits)
  then show ?thesis
  proof cases
    case 1
    have "length (dropWhile is_digit r1) \<le> length r1"
      by (rule length_dropWhile_le)
    with 1 split s1 show ?thesis by simp
  next
    case 2
    then obtain x xs where "takeWhile is_digit ?s1 = x # xs"
      by (cases "takeWhile is_digit ?s1") auto
    with split have "length (dropWhile is_digit ?s1) < length ?s1"
      by simp
    with 2(2) s1 show ?thesis by simp
  qed
qed

function find_numbers :: "string \<Rightarrow> string list" where
  "find_numbers [] = []"
| "find_numbers (c # cs) =
     (case match_coord (c # cs) of
        Some (tok, rest) \<Rightarrow> tok # find_numbers rest
      | None \<Rightarrow> find_numbers cs)"
  by pat_completeness auto
termination
  by (relation "measure length") (auto dest: match_coord_length)

text \<open>\<open>coords[0::2]\<close> is \<open>every_other coords\<close>, \<open>coords[1::2]\<close> is \<open>every_other (drop 1 coords)\<close>.\<close>

fun every_other :: "'a list \<Rightarrow> 'a list" where
  "every_other [] = []"
| "every_other [x] = [x]"
| "every_other (x # y # zs) = x # every_other zs"

text \<open>\<open>max\<close> and \<open>min\<close> of a list that is not empty (on the empty list they raise ValueError).\<close>

definition list_max :: "real list \<Rightarrow> real" where
  "list_max xs = fold max (tl xs) (hd xs)"

definition list_min :: "real list \<Rightarrow> real" where
  "list_min xs = fold min (tl xs) (hd xs)"

subsection \<open>Classification\<close>

text \<open>What the loop body of \<open>extract_paths_from_file\<close> does with one path.\<close>

datatype path_class = Skipped | Dot "real \<times> real \<times> real" | ArrowFragment "point list list"

text \<open>Python's \<open>/\<close> on floats raises ZeroDivisionError on a zero divisor.\<close>

definition py_truediv :: "real \<Rightarrow> real \<Rightarrow> py_error + real" where
  "py_truediv a b = (if b = 0 then Inl ZeroDivisionError else Inr (a / b))"

text \<open>\<open>ratio = w/h if h!=0 else 0\<close>, line 108.\<close>

definition aspect_ratio :: "real \<Rightarrow> real \<Rightarrow> py_error + real" where
  "aspect_ratio w h = (if h \<noteq> 0 then py_truediv w h else Inr 0)"

text \<open>\<open>is_dot = (w < 30 and h < 30 and 0.5 < ratio < 2.0)\<close>, line 109.\<close>

definition is_dot :: "real \<Rightarrow> real \<Rightarrow> real \<Rightarrow> bool" where
  "is_dot w h ratio = (w < 30 \<and> h < 30 \<and> 1 / 2 < ratio \<and> ratio < 2)"

text \<open>Lines 107-117: the classification of a path that passed the filters.\<close>

definition classify :: "string \<Rightarrow> real \<Rightarrow> real \<Rightarrow> real \<Rightarrow> real \<Rightarrow> py_error + path_class" where
  "classify d w h cx cy =
     (case aspect_ratio w h of
        Inl e \<Rightarrow> Inl e
      | Inr ratio \<Rightarrow>
          if is_dot w h ratio then Inr (Dot (cx, cy, (w + h) / 4))
          else (case parse_svg_paths_basic d of
                  Inl e \<Rightarrow> Inl e
                | Inr parsed_polys \<Rightarrow> Inr (ArrowFragment parsed_polys)))"

text \<open>
  Lines 90-117, for a path whose attributes are \<open>fill\<close> (\<open>attrs.get('fill', '')\<close>) and
  \<open>d\<close> (\<open>attrs.get('d', '')\<close>). A \<open>d\<close> with a single number has no \<open>ys\<close>: \<open>max(ys)\<close>
  raises ValueError.
\<close>

definition extract_path :: "string \<Rightarrow> string \<Rightarrow> py_error + path_class" where
  "extract_path fill d =
     (let coords = map literal_val (find_numbers d) in
      if coords = [] then Inr Skipped
      else
        (let xs = every_other coords; ys = every_other (drop 1 coords) in
         if xs = [] then Inr Skipped
         else if ys = [] then Inl ValueError
         else
           (let w = list_max xs - list_min xs;
                h = list_max ys - list_min ys;
                cx = (list_max xs + list_min xs) / 2;
                cy = (list_max ys + list_min ys) / 2
            in if upper fill = ''#13161B'' then Inr Skipped
               else if w > 900 then Inr Skipped
               else classify d w h cx cy)))"

text \<open>
  The loop of lines 87-117 over the paths found in the file, each given by its
  \<open>(fill, d)\<close> attributes: the dots and the arrow polygons collected.
\<close>

fun extract_paths ::
    "(string \<times> string) list \<Rightarrow> (real \<times> real \<times> real) list \<times> point list list \<Rightarrow>
     py_error + (real \<times> real \<times> real) list \<times> point list list" where
  "extract_paths [] acc = Inr acc"
| "extract_paths ((fill, d) # rest) (dots, arrows) =
     (case extract_path fill d of
        Inl e \<Rightarrow> Inl e
      | Inr Skipped \<Rightarrow> extract_paths rest (dots, arrows)
      | Inr (Dot c) \<Rightarrow> extract_paths rest (dots @ [c], arrows)
      | Inr (ArrowFragment parsed_polys) \<Rightarrow> extract_paths rest (dots, arrows @ parsed_polys))"

section \<open>Simplifier: Ramer-Douglas-Peucker\<close>

text \<open>
  \<open>perpendicular_distance(point, start, end)\<close>, lines 121-136. The division is by
  \<open>np.hypot\<close> of a non-zero vector, a numpy float: it raises nothing.
\<close>

definition perpendicular_distance :: "point \<Rightarrow> point \<Rightarrow> point \<Rightarrow> real" where
  "perpendicular_distance point start endp =
     (if start = endp then hypot (fst point - fst start) (snd point - snd start)
      else
        (let x0 = fst point; y0 = snd point;
             x1 = fst start; y1 = snd start;
             x2 = fst endp; y2 = snd endp;
             num = \<bar>(y2 - y1) * x0 - (x2 - x1) * y0 + x2 * y1 - y2 * x1\<bar>;
             den = hypot (x2 - x1) (y2 - y1)
         in num / den))"

text \<open>
  The scan of lines 139-147: \<open>for i in range(1, end)\<close> over the state
  \<open>(index, dmax)\<close>, started at \<open>(0, 0.0)\<close>, with \<open>end = len(points) - 1\<close>. The range
  is empty unless the list has three points or more, so every index read is in range.
\<close>

definition rdp_scan_step :: "point list \<Rightarrow> nat \<Rightarrow> nat \<times> real \<Rightarrow> nat \<times> real" where
  "rdp_scan_step points i s =
     (let d = perpendicular_distance (points ! i) (points ! 0) (points ! (length points - 1))
      in if d > snd s then (i, d) else s)"

definition rdp_scan :: "point list \<Rightarrow> nat \<times> real" where
  "rdp_scan points = fold (rdp_scan_step points) [1..<length points - 1] (0, 0)"

text \<open>
  \<open>ramer_douglas_peucker(points, epsilon)\<close>, lines 138-157. The recursion of the
  source is not bounded by anything the function checks, so the model is a partial
  function: \<open>None\<close> is "the call never returns" (in CPython: RecursionError),
  \<open>Some (Inl e)\<close> is the exception \<open>e\<close> and \<open>Some (Inr ps)\<close> the returned list.
  \<open>points[:index+1]\<close> is \<open>take (index + 1)\<close>, \<open>points[index:]\<close> is \<open>drop index\<close>,
  \<open>rec_results1[:-1]\<close> is \<open>butlast\<close>; \<open>points[0]\<close> raises IndexError on the empty list.
\<close>

partial_function (option) ramer_douglas_peucker ::
    "point list \<Rightarrow> real \<Rightarrow> (py_error + point list) option" where
  "ramer_douglas_peucker points epsilon =
     (let index = fst (rdp_scan points); dmax = snd (rdp_scan points) in
      if dmax > epsilon then
        do {
          r1 \<leftarrow> ramer_douglas_peucker (take (index + 1) points) epsilon;
          case r1 of
            Inl e \<Rightarrow> Some (Inl e)
          | Inr rec_results1 \<Rightarrow>
              do {
                r2 \<leftarrow> ramer_douglas_peucker (drop index points) epsilon;
                case r2 of
                  Inl e \<Rightarrow> Some (Inl e)
                | Inr rec_results2 \<Rightarrow> Some (Inr (butlast rec_results1 @ rec_results2))
              }
        }
      else if points = [] then Some (Inl IndexError)
      else Some (Inr [points ! 0, points ! (length points - 1)]))"


text \<open>
  The dedup pre-pass of \<open>simplify_points\<close>, lines 165-170: \<open>dedup[-1]\<close> is \<open>last dedup\<close>
  (the list is never empty); \<open>points[0]\<close> raises IndexError on the empty list.
\<close>

definition dedup_step :: "point \<Rightarrow> point list \<Rightarrow> point list" where
  "dedup_step p dedup =
     (if hypot (fst p - fst (last dedup)) (snd p - snd (last dedup)) > 1 / 2
      then dedup @ [p] else dedup)"

definition simplify_dedup :: "point list \<Rightarrow> py_error + point list" where
  "simplify_dedup points =
     (if points = [] then Inl IndexError
      else Inr (dedup_step (last points) (fold dedup_step (drop 1 points) [points ! 0])))"

text \<open>\<open>simplify_points(points, tolerance)\<close>, lines 159-177.\<close>

definition simplify_points :: "point list \<Rightarrow> real \<Rightarrow> (py_error + point list) option" where
  "simplify_points points tolerance =
     (case simplify_dedup points of
        Inl e \<Rightarrow> Some (Inl e)
      | Inr dedup \<Rightarrow> ramer_douglas_peucker dedup tolerance)"

section \<open>Symmetry reconstructor\<close>

text \<open>Lines 187-192: consecutive equal points collapsed.\<close>

definition unique_points_of :: "point list \<Rightarrow> point list" where
  "unique_points_of points =
     (if length points > 0
      then fold (\<lambda>p u. if p \<noteq> last u then u @ [p] else u) (drop 1 points) [points ! 0]
      else [])"

text \<open>
  \<open>max(range(len(unique_points)), key=lambda i: unique_points[i][0])\<close>, line 196: the
  first index of the largest x.
\<close>

definition tip_index :: "point list \<Rightarrow> nat" where
  "tip_index u = fold (\<lambda>i best. if fst (u ! i) > fst (u ! best) then i else best) [1..<length u] 0"

definition warning_line :: string where
  "warning_line = ''Warning: Could not determine detailed connectivity. Using geometric filter.''"

text \<open>
  Lines 196-217 on the unique points (not empty): the tip, the rotation that puts the
  tip first, its two neighbours and the two orientation tests.
\<close>

definition tip_of :: "point list \<Rightarrow> point" where
  "tip_of unique_points = unique_points ! tip_index unique_points"

definition rotated_of :: "point list \<Rightarrow> point list" where
  "rotated_of unique_points =
     drop (tip_index unique_points) unique_points @ take (tip_index unique_points) unique_points"

definition forward_is_top :: "point list \<Rightarrow> bool" where
  "forward_is_top unique_points =
     (let rotated = rotated_of unique_points; axis_y = snd (tip_of unique_points);
          p_next = (if length rotated > 1 then rotated ! 1 else rotated ! 0)
      in snd p_next < axis_y)"

definition backward_is_top :: "point list \<Rightarrow> bool" where
  "backward_is_top unique_points =
     (let rotated = rotated_of unique_points; axis_y = snd (tip_of unique_points);
          p_prev = last rotated
      in snd p_prev < axis_y)"

text \<open>
  Lines 223-251: the top arm collected and the lines printed while collecting it. A
  loop left by \<open>break\<close> is a \<open>takeWhile\<close>; \<open>rotated[1:]\<close> is \<open>drop 1 rotated\<close>,
  \<open>reversed(rotated[:-1])\<close> is \<open>rev (butlast rotated)\<close>; \<open>sorted\<close> is stable, as
  \<open>sort_key\<close> is.
\<close>

definition top_arm :: "point list \<Rightarrow> point list \<times> string list" where
  "top_arm unique_points =
     (let tip = tip_of unique_points; axis_y = snd tip; rotated = rotated_of unique_points
      in if forward_is_top unique_points then
           (takeWhile (\<lambda>p. \<not> snd p > axis_y + 1 / 10) (drop 1 rotated), [])
         else if backward_is_top unique_points then
           (takeWhile (\<lambda>p. \<not> snd p > axis_y + 1 / 10) (rev (butlast rotated)), [])
         else
           (filter (\<lambda>p. p \<noteq> tip)
              (sort_key (\<lambda>p. - fst p) (filter (\<lambda>p. snd p \<le> axis_y + 1 / 2) unique_points)),
            [warning_line]))"

text \<open>
  \<open>symmetrize_arrow(points)\<close>, lines 179-279: the polygon returned and the lines
  printed. \<open>top_points[-1] = notch\<close> is a list update at the last index.
\<close>

definition symmetrize_arrow :: "point list \<Rightarrow> point list \<times> string list" where
  "symmetrize_arrow points =
     (let unique_points = unique_points_of points in
      if unique_points = [] then (points, [])
      else
        (let tip = tip_of unique_points; axis_y = snd tip;
             top_points = fst (top_arm unique_points);
             printed = snd (top_arm unique_points)
         in if top_points = [] then (points, printed)
            else
              (let notch = (fst (last top_points), axis_y);
                   top_points' = top_points[length top_points - 1 := notch];
                   bottom_points = map (\<lambda>p. (fst p, 2 * axis_y - snd p)) (rev (butlast top_points'))
               in ([tip] @ top_points' @ bottom_points @ [tip], printed))))"

section \<open>Notions used in the statements and proofs\<close>

text \<open>The distance the scan computes for the point at index \<open>i\<close>.\<close>

definition dist_of :: "point list \<Rightarrow> nat \<Rightarrow> real" where
  "dist_of points i =
     perpendicular_distance (points ! i) (points ! 0) (points ! (length points - 1))"

text \<open>
  What the state \<open>(index, dmax)\<close> is after the indices \<open>1..<j\<close>: either nothing was
  selected and no distance is positive, or \<open>index\<close> is the first index of the largest
  distance, which is positive.
\<close>

definition scan_spec :: "point list \<Rightarrow> nat \<Rightarrow> nat \<times> real \<Rightarrow> bool" where
  "scan_spec points j s =
     ((fst s = 0 \<and> snd s = 0 \<and> (\<forall>i. 1 \<le> i \<and> i < j \<longrightarrow> dist_of points i \<le> 0)) \<or>
      (1 \<le> fst s \<and> fst s < j \<and> snd s = dist_of points (fst s) \<and> 0 < snd s \<and>
        (\<forall>i. 1 \<le> i \<and> i < fst s \<longrightarrow> dist_of points i < snd s) \<and>
        (\<forall>i. fst s \<le> i \<and> i < j \<longrightarrow> dist_of points i \<le> snd s)))"

text \<open>The points of a list other than its first and its last.\<close>

definition interior :: "'a list \<Rightarrow> 'a list" where
  "interior xs = butlast (tl xs)"

text \<open>What every returned list has in common with the list it was computed from.\<close>

definition rdp_shape :: "point list \<Rightarrow> point list \<Rightarrow> bool" where
  "rdp_shape points out =
     (2 \<le> length out \<and> hd out = hd points \<and> last out = last points \<and>
      (2 \<le> length points \<longrightarrow> subseq out points) \<and>
      set (interior out) \<subseteq> set (interior points))"

text \<open>
  Every point at an index from \<open>a\<close> to \<open>b\<close> is within \<open>epsilon\<close> of the segment from
  the point at \<open>a\<close> to the point at \<open>b\<close>, measured by \<open>perpendicular_distance\<close>; and a
  list of increasing indices each of whose steps is such a segment.
\<close>

definition seg_within :: "real \<Rightarrow> point list \<Rightarrow> nat \<Rightarrow> nat \<Rightarrow> bool" where
  "seg_within epsilon points a b =
     (\<forall>i. a \<le> i \<and> i \<le> b \<longrightarrow>
        perpendicular_distance (points ! i) (points ! a) (points ! b) \<le> epsilon)"

fun chain_within :: "real \<Rightarrow> point list \<Rightarrow> nat list \<Rightarrow> bool" where
  "chain_within epsilon points (a # b # sel) =
     (a < b \<and> seg_within epsilon points a b \<and> chain_within epsilon points (b # sel))"
| "chain_within epsilon points [a] = True"
| "chain_within epsilon points [] = True"

text \<open>The returned list is the points at such a list of indices, from the first to the last.\<close>

definition rdp_cert :: "real \<Rightarrow> point list \<Rightarrow> point list \<Rightarrow> bool" where
  "rdp_cert epsilon points out =
     (2 \<le> length points \<longrightarrow>
        (\<exists>sel. out = map (nth points) sel \<and> sel \<noteq> [] \<and> hd sel = 0 \<and>
           last sel = length points - 1 \<and> chain_within epsilon points sel))"

section \<open>Properties of the scan\<close>

lemma rdp_scan_step_alt:
  "rdp_scan_step points i s = (if dist_of points i > snd s then (i, dist_of points i) else s)"
  by (simp add: rdp_scan_step_def dist_of_def Let_def)

lemma scan_spec_step:
  assumes "scan_spec points j s" "1 \<le> j"
  shows "scan_spec points (Suc j) (rdp_scan_step points j s)"
proof (cases "dist_of points j > snd s")
  case True
  then have st: "rdp_scan_step points j s = (j, dist_of points j)"
    by (simp add: rdp_scan_step_alt)
  have a: "\<forall>i. 1 \<le> i \<and> i < j \<longrightarrow> dist_of points i \<le> snd s"
    using assms(1) unfolding scan_spec_def
    by (metis less_eq_real_def not_le_imp_less order.trans)
  have b: "0 \<le> snd s"
    using assms(1) unfolding scan_spec_def by auto
  show ?thesis
    unfolding st scan_spec_def using a b assms(2) True by (auto simp: less_Suc_eq)
next
  case False
  then have st: "rdp_scan_step points j s = s"
    by (simp add: rdp_scan_step_alt)
  from assms False show ?thesis
    unfolding st scan_spec_def by (auto simp: less_Suc_eq)
qed

lemma scan_spec_fold:
  "scan_spec points (Suc j) (fold (rdp_scan_step points) [1..<Suc j] (0, 0))"
proof (induction j)
  case 0
  show ?case by (simp add: scan_spec_def)
next
  case (Suc j)
  have "fold (rdp_scan_step points) [1..<Suc (Suc j)] (0, 0)
          = rdp_scan_step points (Suc j) (fold (rdp_scan_step points) [1..<Suc j] (0, 0))"
    by simp
  with scan_spec_step[OF Suc] show ?case by simp
qed

lemma rdp_scan_spec: "scan_spec points (length points - 1) (rdp_scan points)"
proof (cases "length points - 1")
  case 0
  then show ?thesis by (simp add: rdp_scan_def scan_spec_def)
next
  case (Suc j)
  then show ?thesis using scan_spec_fold[of points j] by (simp add: rdp_scan_def)
qed

lemma scan_spec_unique:
  assumes "scan_spec points j s" "scan_spec points j t"
  shows "s = t"
proof -
  have lt: False if "scan_spec points j u" "scan_spec points j v" "fst u < fst v" for u v
  proof -
    from that have v: "1 \<le> fst v" "fst v < j" "snd v = dist_of points (fst v)" "0 < snd v"
      and vb: "\<forall>i. 1 \<le> i \<and> i < fst v \<longrightarrow> dist_of points i < snd v"
      unfolding scan_spec_def by auto
    show False
    proof (cases "fst u = 0")
      case True
      with that(1) have "snd u = 0" "dist_of points (fst v) \<le> 0"
        using v unfolding scan_spec_def by auto
      with v show False by simp
    next
      case False
      with that(1) have u: "1 \<le> fst u" "snd u = dist_of points (fst u)"
        "\<forall>i. fst u \<le> i \<and> i < j \<longrightarrow> dist_of points i \<le> snd u"
        unfolding scan_spec_def by auto
      from u(1) that(3) vb have "dist_of points (fst u) < snd v" by simp
      moreover from u(3) that(3) v(2) have "dist_of points (fst v) \<le> snd u" by simp
      ultimately show False using u(2) v(3) by simp
    qed
  qed
  have "fst s = fst t"
    using lt[OF assms] lt[OF assms(2,1)] by (meson not_less_iff_gr_or_eq)
  moreover from this assms have "snd s = snd t"
    unfolding scan_spec_def by auto
  ultimately show ?thesis by (simp add: prod_eq_iff)
qed


section \<open>Properties of the simplifier\<close>

lemma subseq_snoc_both: "subseq (xs @ [x]) (ys @ [y]) \<Longrightarrow> subseq xs ys"
proof (induction ys arbitrary: xs)
  case Nil
  then have "length (xs @ [x]) \<le> length ([] @ [y])" by (rule list_emb_length)
  then show ?case by simp
next
  case (Cons a ys)
  show ?case
  proof (cases xs)
    case Nil
    then show ?thesis by simp
  next
    case (Cons b xs')
    with Cons.prems Cons.IH[of xs'] Cons.IH[of "b # xs'"] show ?thesis
      by (auto split: if_splits)
  qed
qed

lemma subseq_last: "rest \<noteq> [] \<Longrightarrow> subseq [last rest] rest"
  by (induction rest) auto

lemma subseq_first_last:
  assumes "2 \<le> length points"
  shows "subseq [points ! 0, points ! (length points - 1)] points"
proof -
  from assms obtain a rest where p: "points = a # rest" "rest \<noteq> []"
    by (cases points) (auto simp: Suc_le_eq)
  with subseq_last[of rest] show ?thesis by (simp add: last_conv_nth)
qed

lemma rdp_scan_cases:
  obtains (none) "rdp_scan points = (0, 0)"
      "\<forall>i. 1 \<le> i \<and> i < length points - 1 \<longrightarrow> dist_of points i \<le> 0"
  | (some) k m where "rdp_scan points = (k, m)" "1 \<le> k" "k < length points - 1"
      "m = dist_of points k" "0 < m"
      "\<forall>i. 1 \<le> i \<and> i < k \<longrightarrow> dist_of points i < m"
      "\<forall>i. k \<le> i \<and> i < length points - 1 \<longrightarrow> dist_of points i \<le> m"
  using rdp_scan_spec[of points] unfolding scan_spec_def
  by (cases "rdp_scan points") auto

lemma rdp_base:
  assumes "snd (rdp_scan points) \<le> epsilon" "points \<noteq> []"
  shows "ramer_douglas_peucker points epsilon =
           Some (Inr [points ! 0, points ! (length points - 1)])"
  using assms by (subst ramer_douglas_peucker.simps) (simp add: Let_def)

lemma rdp_rec:
  assumes "snd (rdp_scan points) > epsilon"
    "ramer_douglas_peucker (take (fst (rdp_scan points) + 1) points) epsilon = Some (Inr r1)"
    "ramer_douglas_peucker (drop (fst (rdp_scan points)) points) epsilon = Some (Inr r2)"
  shows "ramer_douglas_peucker points epsilon = Some (Inr (butlast r1 @ r2))"
  using assms by (subst ramer_douglas_peucker.simps) (simp add: Let_def)

lemma rdp_induct [consumes 2, case_names base split]:
  assumes nonempty: "points \<noteq> []" and eps: "0 \<le> epsilon"
    and base: "\<And>points. points \<noteq> [] \<Longrightarrow> snd (rdp_scan points) \<le> epsilon \<Longrightarrow>
        P points [points ! 0, points ! (length points - 1)]"
    and split: "\<And>points k m r1 r2. rdp_scan points = (k, m) \<Longrightarrow> epsilon < m \<Longrightarrow>
        1 \<le> k \<Longrightarrow> k < length points - 1 \<Longrightarrow>
        ramer_douglas_peucker (take (k + 1) points) epsilon = Some (Inr r1) \<Longrightarrow>
        ramer_douglas_peucker (drop k points) epsilon = Some (Inr r2) \<Longrightarrow>
        P (take (k + 1) points) r1 \<Longrightarrow> P (drop k points) r2 \<Longrightarrow>
        P points (butlast r1 @ r2)"
  shows "\<exists>out. ramer_douglas_peucker points epsilon = Some (Inr out) \<and> P points out"
  using nonempty
proof (induction "length points" arbitrary: points rule: less_induct)
  case less
  show ?case
  proof (cases "snd (rdp_scan points) \<le> epsilon")
    case True
    with less.prems show ?thesis using rdp_base base by blast
  next
    case False
    then have gt: "epsilon < snd (rdp_scan points)" by simp
    with eps obtain k m where km: "rdp_scan points = (k, m)" "1 \<le> k" "k < length points - 1"
      by (cases points rule: rdp_scan_cases) auto
    from km have l1: "length (take (k + 1) points) < length points" "take (k + 1) points \<noteq> []"
      and l2: "length (drop k points) < length points" "drop k points \<noteq> []"
      by auto
    from less.hyps[OF l1] obtain r1 where
      r1: "ramer_douglas_peucker (take (k + 1) points) epsilon = Some (Inr r1)"
        "P (take (k + 1) points) r1"
      by blast
    from less.hyps[OF l2] obtain r2 where
      r2: "ramer_douglas_peucker (drop k points) epsilon = Some (Inr r2)"
        "P (drop k points) r2"
      by blast
    have "ramer_douglas_peucker points epsilon = Some (Inr (butlast r1 @ r2))"
      using rdp_rec[of epsilon points r1 r2] gt r1(1) r2(1) km(1) by simp
    moreover have "P points (butlast r1 @ r2)"
      using split[OF km(1) _ km(2,3) r1(1) r2(1) r1(2) r2(2)] gt km(1) by simp
    ultimately show ?thesis by blast
  qed
qed

lemma interior_nth: "interior xs = map (nth xs) [1..<length xs - 1]"
  by (rule nth_equalityI) (auto simp: interior_def nth_butlast nth_tl)

lemma set_interior: "set (interior xs) = {xs ! i |i. 1 \<le> i \<and> i < length xs - 1}"
  by (auto simp: interior_nth)

lemma rdp_shape_base:
  assumes "points \<noteq> []"
  shows "rdp_shape points [points ! 0, points ! (length points - 1)]"
  using assms subseq_first_last[of points]
  by (simp add: rdp_shape_def hd_conv_nth last_conv_nth interior_def)

lemma rdp_shape_split:
  assumes k: "1 \<le> k" "k < length points - 1"
    and s1: "rdp_shape (take (k + 1) points) r1"
    and s2: "rdp_shape (drop k points) r2"
  shows "rdp_shape points (butlast r1 @ r2)"
proof -
  have tk: "take (k + 1) points = take k points @ [points ! k]"
    using k by (simp add: take_Suc_conv_app_nth)
  from s1 have r1: "2 \<le> length r1" "hd r1 = hd points" "last r1 = points ! k"
    "subseq r1 (take (k + 1) points)" "set (interior r1) \<subseteq> set (interior (take (k + 1) points))"
  proof -
    have "last (take (k + 1) points) = points ! k"
      unfolding tk by simp
    moreover have "hd (take (k + 1) points) = hd points"
      by simp
    ultimately show "2 \<le> length r1" "hd r1 = hd points" "last r1 = points ! k"
      "subseq r1 (take (k + 1) points)"
      "set (interior r1) \<subseteq> set (interior (take (k + 1) points))"
      using s1 k unfolding rdp_shape_def by auto
  qed
  from s2 have r2: "2 \<le> length r2" "hd r2 = points ! k" "last r2 = last points"
    "subseq r2 (drop k points)" "set (interior r2) \<subseteq> set (interior (drop k points))"
    using k by (auto simp: rdp_shape_def hd_drop_conv_nth)
  from r1(1) have b1: "butlast r1 \<noteq> []" "hd (butlast r1) = hd r1"
    by (cases r1; cases "tl r1"; auto)+
  from r2(1) have n2: "r2 \<noteq> []" by auto
  from r1(1,3) have r1s: "r1 = butlast r1 @ [points ! k]"
    by (metis append_butlast_last_id length_0_conv not_numeral_le_zero)
  have "subseq (butlast r1) (take k points)"
    using r1(4) r1s tk subseq_snoc_both by metis
  then have sub: "subseq (butlast r1 @ r2) points"
    using r2(4) list_emb_append_mono[of "(=)" "butlast r1" "take k points" r2 "drop k points"]
    by simp
  have int_out: "interior (butlast r1 @ r2) = interior r1 @ [points ! k] @ interior r2"
  proof -
    from b1 n2 have "interior (butlast r1 @ r2) = tl (butlast r1) @ butlast r2"
      by (simp add: interior_def butlast_append)
    moreover have "tl (butlast r1) = interior r1"
      by (simp add: interior_def butlast_tl)
    moreover from r2(1,2) have "butlast r2 = points ! k # interior r2"
      by (cases r2; cases "tl r2"; auto simp: interior_def)
    ultimately show ?thesis by simp
  qed
  have i1: "set (interior (take (k + 1) points)) \<subseteq> set (interior points)"
    using k by (auto simp: set_interior)
  have i2: "set (interior (drop k points)) \<subseteq> set (interior points)"
  proof
    fix p assume "p \<in> set (interior (drop k points))"
    then obtain i where i: "p = drop k points ! i" "1 \<le> i" "i < length points - k - 1"
      by (auto simp: set_interior)
    then have "p = points ! (k + i)" "1 \<le> k + i" "k + i < length points - 1"
      using k by auto
    then show "p \<in> set (interior points)"
      unfolding set_interior by blast
  qed
  have i3: "points ! k \<in> set (interior points)"
    using k unfolding set_interior by blast
  show ?thesis
    unfolding rdp_shape_def int_out
    using b1 n2 r1 r2 sub i1 i2 i3 by auto
qed

lemma rdp_returns_shape:
  assumes "points \<noteq> []" "0 \<le> epsilon"
  shows "\<exists>out. ramer_douglas_peucker points epsilon = Some (Inr out) \<and> rdp_shape points out"
  using assms
proof (induction rule: rdp_induct)
  case (base points)
  then show ?case using rdp_shape_base[of points] by simp
next
  case (split points k m r1 r2)
  then show ?case using rdp_shape_split by blast
qed

lemma rdp_shape_of_result:
  assumes "ramer_douglas_peucker points epsilon = Some (Inr out)" "points \<noteq> []" "0 \<le> epsilon"
  shows "rdp_shape points out"
  using rdp_returns_shape[OF assms(2,3)] assms(1) by auto

lemma rdp_idem_split:
  assumes scan: "rdp_scan points = (k, m)" and eps: "0 \<le> epsilon" "epsilon < m"
    and k: "1 \<le> k" "k < length points - 1"
    and s1: "rdp_shape (take (k + 1) points) r1" and s2: "rdp_shape (drop k points) r2"
    and i1: "ramer_douglas_peucker r1 epsilon = Some (Inr r1)"
    and i2: "ramer_douglas_peucker r2 epsilon = Some (Inr r2)"
  shows "ramer_douglas_peucker (butlast r1 @ r2) epsilon = Some (Inr (butlast r1 @ r2))"
proof -
  define out where "out = butlast r1 @ r2"
  define D where "D p = perpendicular_distance p (points ! 0) (points ! (length points - 1))" for p
  have distp: "dist_of points i = D (points ! i)" for i
    by (simp add: dist_of_def D_def)
  from scan eps have m: "m = D (points ! k)" "0 < m"
    and before: "\<forall>i. 1 \<le> i \<and> i < k \<longrightarrow> D (points ! i) < m"
    and after: "\<forall>i. k \<le> i \<and> i < length points - 1 \<longrightarrow> D (points ! i) \<le> m"
    by (cases points rule: rdp_scan_cases; simp add: distp)+
  have tk: "take (k + 1) points = take k points @ [points ! k]"
    using k by (simp add: take_Suc_conv_app_nth)
  have l1: "last (take (k + 1) points) = points ! k"
    unfolding tk by simp
  from s1 l1 have r1: "2 \<le> length r1" "last r1 = points ! k" "hd r1 = hd points"
    "set (interior r1) \<subseteq> set (interior (take (k + 1) points))"
    unfolding rdp_shape_def by auto
  from s2 k have r2: "2 \<le> length r2" "hd r2 = points ! k" "last r2 = last points"
    "set (interior r2) \<subseteq> set (interior (drop k points))"
    unfolding rdp_shape_def by (auto simp: hd_drop_conv_nth)
  from k have ne: "points \<noteq> []" by auto
  have in1: "D p < m" if "p \<in> set (interior r1)" for p
  proof -
    from that r1(4) obtain i where "p = take (k + 1) points ! i" "1 \<le> i" "i < k"
      using k by (auto simp: set_interior)
    with before show ?thesis by simp
  qed
  have in2: "D p \<le> m" if "p \<in> set (interior r2)" for p
  proof -
    from that r2(4) obtain i where i: "p = drop k points ! i" "1 \<le> i" "i < length points - k - 1"
      by (auto simp: set_interior)
    then have "p = points ! (k + i)" "k \<le> k + i" "k + i < length points - 1"
      using k by auto
    with after show ?thesis by blast
  qed
  let ?L = "length r1"
  have len: "length out = ?L - 1 + length r2"
    by (simp add: out_def)
  have bl: "length (butlast r1) = ?L - 1" by simp
  from r1(1) have hd_out: "out ! 0 = points ! 0"
    using r1(3) ne by (cases r1; cases "tl r1"; simp add: out_def hd_conv_nth)
  have last_out: "out ! (length out - 1) = points ! (length points - 1)"
  proof -
    from r2(1) have "r2 \<noteq> []" by auto
    then have "last out = last r2" by (simp add: out_def)
    moreover from r2(1) have "out \<noteq> []" by (auto simp: out_def)
    ultimately show ?thesis using r2(3) ne by (simp add: last_conv_nth)
  qed
  have dist_out: "dist_of out i = D (out ! i)" for i
    using hd_out last_out by (simp add: dist_of_def D_def)
  have at_left: "out ! i \<in> set (interior r1)" if "1 \<le> i" "i < ?L - 1" for i
  proof -
    from that have "out ! i = r1 ! i"
      by (simp add: out_def nth_append nth_butlast)
    with that show ?thesis unfolding set_interior by blast
  qed
  have at_mid: "out ! (?L - 1) = points ! k"
    using r2(1,2) by (cases r2) (auto simp: out_def nth_append)
  have at_right: "out ! i \<in> set (interior r2)" if "?L - 1 < i" "i < length out - 1" for i
  proof -
    from that have "out ! i = r2 ! (i - (?L - 1))"
      by (simp add: out_def nth_append)
    moreover from that len have "1 \<le> i - (?L - 1)" "i - (?L - 1) < length r2 - 1"
      by auto
    ultimately show ?thesis unfolding set_interior by blast
  qed
  have spec: "scan_spec out (length out - 1) (?L - 1, m)"
  proof -
    have a: "1 \<le> ?L - 1" "?L - 1 < length out - 1"
      using r1(1) r2(1) len by auto
    have b: "m = dist_of out (?L - 1)"
      using at_mid m(1) by (simp add: dist_out)
    have c: "\<forall>i. 1 \<le> i \<and> i < ?L - 1 \<longrightarrow> dist_of out i < m"
      using at_left in1 by (simp add: dist_out)
    have d: "\<forall>i. ?L - 1 \<le> i \<and> i < length out - 1 \<longrightarrow> dist_of out i \<le> m"
    proof (intro allI impI)
      fix i assume i: "?L - 1 \<le> i \<and> i < length out - 1"
      show "dist_of out i \<le> m"
      proof (cases "i = ?L - 1")
        case True
        with b show ?thesis by simp
      next
        case False
        with i have "?L - 1 < i" by simp
        with i at_right in2 show ?thesis by (simp add: dist_out)
      qed
    qed
    show ?thesis
      unfolding scan_spec_def using a b c d m(2) by simp
  qed
  have scan_out: "rdp_scan out = (?L - 1, m)"
    using scan_spec_unique[OF rdp_scan_spec spec] .
  have take_out: "take (?L - 1 + 1) out = r1"
  proof -
    from r2(1,2) have "take 1 r2 = [points ! k]"
      by (cases r2) auto
    moreover from r1(1,2) have "r1 = butlast r1 @ [points ! k]"
      by (metis append_butlast_last_id length_0_conv not_numeral_le_zero)
    moreover have "take (length (butlast r1) + 1) (butlast r1 @ r2) = butlast r1 @ take 1 r2"
      by (simp del: length_butlast)
    ultimately show ?thesis
      unfolding out_def by (metis bl)
  qed
  have drop_out: "drop (?L - 1) out = r2"
    by (simp add: out_def)
  have "ramer_douglas_peucker out epsilon = Some (Inr (butlast r1 @ r2))"
    using rdp_rec[of epsilon out r1 r2] scan_out eps(2) take_out drop_out i1 i2
    by simp
  then show ?thesis by (simp add: out_def)
qed

lemma rdp_idem_base:
  "0 \<le> epsilon \<Longrightarrow> ramer_douglas_peucker [a, b] epsilon = Some (Inr [a, b])"
  using rdp_base[of "[a, b]" epsilon] by (simp add: rdp_scan_def)

lemma rdp_returns_idem:
  assumes "points \<noteq> []" "0 \<le> epsilon"
  shows "\<exists>out. ramer_douglas_peucker points epsilon = Some (Inr out) \<and>
           ramer_douglas_peucker out epsilon = Some (Inr out)"
  using assms
proof (induction rule: rdp_induct)
  case (base points)
  then show ?case using assms(2) by (simp add: rdp_idem_base)
next
  case (split points k m r1 r2)
  from split(3,4) have ne: "take (k + 1) points \<noteq> []" "drop k points \<noteq> []"
    by auto
  have s1: "rdp_shape (take (k + 1) points) r1"
    using rdp_shape_of_result[OF split(5) ne(1) assms(2)] .
  have s2: "rdp_shape (drop k points) r2"
    using rdp_shape_of_result[OF split(6) ne(2) assms(2)] .
  show ?case
    using rdp_idem_split[OF split(1) assms(2) split(2,3,4) s1 s2 split(7,8)] .
qed

lemma rdp_scan_nonneg: "0 \<le> snd (rdp_scan points)"
  by (cases points rule: rdp_scan_cases) auto

lemma rdp_negative_some:
  assumes "ramer_douglas_peucker points epsilon = Some y"
  shows "0 \<le> epsilon"
proof (rule ramer_douglas_peucker.raw_induct[where P = "\<lambda>p e r. 0 \<le> e", OF _ assms])
  fix rdp :: "point list \<Rightarrow> real \<Rightarrow> (py_error + point list) option"
    and points epsilon y
  assume IH: "\<And>p e r. rdp p e = Some r \<Longrightarrow> 0 \<le> e"
    and body: "(let index = fst (rdp_scan points); dmax = snd (rdp_scan points) in
      if dmax > epsilon then
        do {
          r1 \<leftarrow> rdp (take (index + 1) points) epsilon;
          case r1 of
            Inl e \<Rightarrow> Some (Inl e)
          | Inr rec_results1 \<Rightarrow>
              do {
                r2 \<leftarrow> rdp (drop index points) epsilon;
                case r2 of
                  Inl e \<Rightarrow> Some (Inl e)
                | Inr rec_results2 \<Rightarrow> Some (Inr (butlast rec_results1 @ rec_results2))
              }
        }
      else if points = [] then Some (Inl IndexError)
      else Some (Inr [points ! 0, points ! (length points - 1)])) = Some y"
  show "0 \<le> epsilon"
  proof (rule ccontr)
    assume neg: "\<not> 0 \<le> epsilon"
    with rdp_scan_nonneg[of points] have gt: "epsilon < snd (rdp_scan points)" by simp
    with body obtain r where "rdp (take (fst (rdp_scan points) + 1) points) epsilon = Some r"
      by (auto simp: Let_def split: bind_splits)
    from IH[OF this] neg show False by simp
  qed
qed

lemma rdp_negative_diverges: "epsilon < 0 \<Longrightarrow> ramer_douglas_peucker points epsilon = None"
  using rdp_negative_some[of points epsilon] by (cases "ramer_douglas_peucker points epsilon") auto

lemma hypot_0_0 [simp]: "hypot 0 0 = 0"
  by (simp add: hypot_def)

lemma perpendicular_distance_start [simp]: "perpendicular_distance a a b = 0"
  by (simp add: perpendicular_distance_def Let_def algebra_simps)

lemma perpendicular_distance_end [simp]: "perpendicular_distance b a b = 0"
  by (simp add: perpendicular_distance_def Let_def algebra_simps)

lemma chain_within_append:
  "chain_within epsilon points (xs @ [m]) \<Longrightarrow> chain_within epsilon points (m # ys) \<Longrightarrow>
   chain_within epsilon points (xs @ m # ys)"
proof (induction xs)
  case Nil
  then show ?case by simp
next
  case (Cons x xs)
  then show ?case by (cases xs) auto
qed

lemma chain_within_sorted: "chain_within epsilon points sel \<Longrightarrow> sorted_wrt (<) sel"
proof (induction epsilon points sel rule: chain_within.induct)
  case (1 epsilon points a b sel)
  then have "sorted_wrt (<) (b # sel)" by simp
  with 1(2) show ?case by auto
qed simp_all

lemma sorted_le_last:
  fixes sel :: "nat list"
  shows "sorted_wrt (<) sel \<Longrightarrow> s \<in> set sel \<Longrightarrow> s \<le> last sel"
  by (induction sel) (auto simp: less_imp_le)

lemma rdp_scan_max:
  assumes "1 \<le> i" "i < length points - 1"
  shows "dist_of points i \<le> snd (rdp_scan points)"
proof (cases points rule: rdp_scan_cases)
  case none
  with assms show ?thesis by simp
next
  case (some k m)
  show ?thesis
  proof (cases "i < k")
    case True
    with some(1,6) assms have "dist_of points i < m" by simp
    with some(1) show ?thesis by simp
  next
    case False
    with some(1,7) assms show ?thesis by simp
  qed
qed

lemma chain_within_take:
  assumes "chain_within epsilon (take (Suc k) points) sel" "\<forall>s\<in>set sel. s \<le> k"
  shows "chain_within epsilon points sel"
  using assms
proof (induction epsilon "take (Suc k) points" sel rule: chain_within.induct)
  case (1 epsilon a b sel)
  from 1(3) have "a \<le> k" "b \<le> k" by auto
  with 1(2) have "seg_within epsilon points a b"
    by (auto simp: seg_within_def)
  with 1 show ?case by simp
qed simp_all

lemma chain_within_drop:
  assumes "chain_within epsilon (drop k points) sel" "\<forall>s\<in>set sel. k + s < length points"
  shows "chain_within epsilon points (map ((+) k) sel)"
  using assms
proof (induction epsilon "drop k points" sel rule: chain_within.induct)
  case (1 epsilon a b sel)
  from 1(3) have ab: "k + a < length points" "k + b < length points" by auto
  have "seg_within epsilon points (k + a) (k + b)"
    unfolding seg_within_def
  proof (intro allI impI)
    fix i assume i: "k + a \<le> i \<and> i \<le> k + b"
    then obtain j where j: "i = k + j" "a \<le> j" "j \<le> b"
      by (metis add_le_imp_le_left le_Suc_ex le_add1 order_trans)
    from 1(2) j have "perpendicular_distance (drop k points ! j) (drop k points ! a)
        (drop k points ! b) \<le> epsilon"
      by (simp add: seg_within_def)
    with ab j show "perpendicular_distance (points ! i) (points ! (k + a)) (points ! (k + b))
        \<le> epsilon"
      by simp
  qed
  with 1 show ?case by simp
qed simp_all

lemma rdp_cert_base:
  assumes "snd (rdp_scan points) \<le> epsilon" "0 \<le> epsilon"
  shows "rdp_cert epsilon points [points ! 0, points ! (length points - 1)]"
  unfolding rdp_cert_def
proof
  assume len: "2 \<le> length points"
  have le: "dist_of points i \<le> epsilon" if "1 \<le> i" "i < length points - 1" for i
    using rdp_scan_max[OF that] assms(1) by simp
  have "seg_within epsilon points 0 (length points - 1)"
    unfolding seg_within_def
  proof (intro allI impI)
    fix i assume i: "0 \<le> i \<and> i \<le> length points - 1"
    consider "i = 0" | "i = length points - 1" | "1 \<le> i" "i < length points - 1"
      using i by linarith
    then show "perpendicular_distance (points ! i) (points ! 0) (points ! (length points - 1))
        \<le> epsilon"
    proof cases
      case 3
      with le[of i] show ?thesis by (simp add: dist_of_def)
    qed (use assms(2) in simp_all)
  qed
  with len have "chain_within epsilon points [0, length points - 1]"
    by simp
  then show "\<exists>sel. [points ! 0, points ! (length points - 1)] = map (nth points) sel \<and>
      sel \<noteq> [] \<and> hd sel = 0 \<and> last sel = length points - 1 \<and> chain_within epsilon points sel"
    by (intro exI[of _ "[0, length points - 1]"]) simp
qed

lemma rdp_cert_split:
  assumes k: "1 \<le> k" "k < length points - 1"
    and c1: "rdp_cert epsilon (take (k + 1) points) r1"
    and c2: "rdp_cert epsilon (drop k points) r2"
  shows "rdp_cert epsilon points (butlast r1 @ r2)"
  unfolding rdp_cert_def
proof
  assume "2 \<le> length points"
  from c1 k obtain sel1 where s1: "r1 = map (nth (take (Suc k) points)) sel1" "sel1 \<noteq> []"
      "hd sel1 = 0" "last sel1 = k" "chain_within epsilon (take (Suc k) points) sel1"
    unfolding rdp_cert_def by auto
  from c2 k obtain sel2 where s2: "r2 = map (nth (drop k points)) sel2" "sel2 \<noteq> []"
      "hd sel2 = 0" "last sel2 = length points - k - 1" "chain_within epsilon (drop k points) sel2"
    unfolding rdp_cert_def by auto
  have b1: "\<forall>s\<in>set sel1. s \<le> k"
    using sorted_le_last[OF chain_within_sorted[OF s1(5)]] s1(4) by auto
  have b2: "\<forall>s\<in>set sel2. k + s < length points"
    using sorted_le_last[OF chain_within_sorted[OF s2(5)]] s2(4) k by fastforce
  from s1(2,4) have sel1: "sel1 = butlast sel1 @ [k]"
    by (metis append_butlast_last_id)
  from s1(2,3,4) k have bne: "butlast sel1 \<noteq> []"
    by (cases sel1; cases "tl sel1"; auto)
  then have hdb: "hd (butlast sel1) = 0"
    using s1(3) by (cases sel1; cases "tl sel1"; auto)
  from s2(2,3) have sel2: "map ((+) k) sel2 = k # map ((+) k) (tl sel2)"
    by (cases sel2) auto
  define sel where "sel = butlast sel1 @ map ((+) k) sel2"
  have ch1: "chain_within epsilon points (butlast sel1 @ [k])"
    using chain_within_take[OF s1(5) b1] sel1 by simp
  have ch2: "chain_within epsilon points (k # map ((+) k) (tl sel2))"
    using chain_within_drop[OF s2(5) b2] sel2 by simp
  have chain: "chain_within epsilon points sel"
    unfolding sel_def sel2 using chain_within_append[OF ch1 ch2] .
  have o1: "butlast r1 = map (nth points) (butlast sel1)"
  proof -
    have "butlast r1 = map (nth (take (Suc k) points)) (butlast sel1)"
      by (simp add: s1(1) map_butlast)
    also have "\<dots> = map (nth points) (butlast sel1)"
    proof -
      have "take (Suc k) points ! x = points ! x" if "x \<in> set (butlast sel1)" for x
      proof -
        from that have "x \<in> set sel1" by (rule in_set_butlastD)
        with b1 have "x < Suc k" by auto
        then show ?thesis by simp
      qed
      then show ?thesis by simp
    qed
    finally show ?thesis .
  qed
  have o2: "r2 = map (nth points) (map ((+) k) sel2)"
    using b2 by (auto simp: s2(1))
  have "butlast r1 @ r2 = map (nth points) sel"
    by (simp add: sel_def o1 o2)
  moreover have "sel \<noteq> []" "hd sel = 0"
    using bne hdb by (auto simp: sel_def)
  moreover have "last sel = length points - 1"
    using s2(2,4) k by (simp add: sel_def last_map)
  ultimately show "\<exists>sel. butlast r1 @ r2 = map (nth points) sel \<and> sel \<noteq> [] \<and> hd sel = 0 \<and>
      last sel = length points - 1 \<and> chain_within epsilon points sel"
    using chain by blast
qed

lemma rdp_returns_cert:
  assumes "points \<noteq> []" "0 \<le> epsilon"
  shows "\<exists>out. ramer_douglas_peucker points epsilon = Some (Inr out) \<and>
           rdp_cert epsilon points out"
  using assms
proof (induction rule: rdp_induct)
  case (base points)
  then show ?case using assms(2) rdp_cert_base[of points epsilon] by simp
next
  case (split points k m r1 r2)
  then show ?case using rdp_cert_split by blast
qed

lemma hypot_x0 [simp]: "hypot a 0 = \<bar>a\<bar>"
  by (simp add: hypot_def)

lemma hypot_0y [simp]: "hypot 0 b = \<bar>b\<bar>"
  by (simp add: hypot_def)

lemma chain_within_nth:
  "chain_within epsilon points sel \<Longrightarrow> Suc j < length sel \<Longrightarrow>
   seg_within epsilon points (sel ! j) (sel ! Suc j)"
proof (induction epsilon points sel arbitrary: j rule: chain_within.induct)
  case (1 epsilon points a b sel)
  then show ?case by (cases j) auto
qed simp_all

lemma consecutive_cover:
  fixes sel :: "nat list"
  shows "2 \<le> length sel \<Longrightarrow> hd sel \<le> i \<Longrightarrow> i \<le> last sel \<Longrightarrow>
    \<exists>j. Suc j < length sel \<and> sel ! j \<le> i \<and> i \<le> sel ! Suc j"
proof (induction sel)
  case Nil
  then show ?case by simp
next
  case (Cons a sel)
  then obtain b rest where sel: "sel = b # rest" by (cases sel) auto
  show ?case
  proof (cases "i \<le> b")
    case True
    with Cons.prems sel show ?thesis by (intro exI[of _ 0]) simp
  next
    case False
    with Cons.prems sel have "rest \<noteq> []" by auto
    with Cons.IH Cons.prems sel False obtain j where
      "Suc j < length sel" "sel ! j \<le> i" "i \<le> sel ! Suc j"
      by (auto simp: Suc_le_eq)
    then show ?thesis by (intro exI[of _ "Suc j"]) simp
  qed
qed

text \<open>
  Claim C1. For a list of at least two points and a tolerance \<open>epsilon \<ge> 0\<close>,
  \<open>ramer_douglas_peucker\<close> returns, and what it returns is the input points at
  increasing indices \<open>sel\<close>, from the first index to the last, such that every input
  point at an index between two consecutive kept indices is within \<open>epsilon\<close> of the
  segment between the two kept points, by the distance the algorithm computes. In
  particular every input point is within \<open>epsilon\<close> of some segment of the result.
\<close>

theorem rdp_within_tolerance:
  assumes "2 \<le> length points" "0 \<le> epsilon"
  shows "\<exists>out sel. ramer_douglas_peucker points epsilon = Some (Inr out) \<and>
      out = map (nth points) sel \<and> sorted_wrt (<) sel \<and> hd sel = 0 \<and>
      last sel = length points - 1 \<and>
      (\<forall>j. Suc j < length sel \<longrightarrow>
         (\<forall>i. sel ! j \<le> i \<and> i \<le> sel ! Suc j \<longrightarrow>
            perpendicular_distance (points ! i) (out ! j) (out ! Suc j) \<le> epsilon)) \<and>
      (\<forall>i<length points. \<exists>j. Suc j < length out \<and>
         perpendicular_distance (points ! i) (out ! j) (out ! Suc j) \<le> epsilon)"
proof -
  from assms have "points \<noteq> []" by auto
  from rdp_returns_cert[OF this assms(2)] assms(1) obtain out sel where
    out: "ramer_douglas_peucker points epsilon = Some (Inr out)"
    and sel: "out = map (nth points) sel" "sel \<noteq> []" "hd sel = 0"
      "last sel = length points - 1" "chain_within epsilon points sel"
    unfolding rdp_cert_def by auto
  have len: "2 \<le> length sel"
    using sel(2,3,4) assms(1) by (cases sel; cases "tl sel"; auto)
  have seg: "perpendicular_distance (points ! i) (out ! j) (out ! Suc j) \<le> epsilon"
    if "Suc j < length sel" "sel ! j \<le> i" "i \<le> sel ! Suc j" for i j
    using chain_within_nth[OF sel(5) that(1)] that by (simp add: seg_within_def sel(1))
  have cover: "\<exists>j. Suc j < length out \<and>
      perpendicular_distance (points ! i) (out ! j) (out ! Suc j) \<le> epsilon"
    if "i < length points" for i
  proof -
    from that sel(3,4) have "hd sel \<le> i" "i \<le> last sel" by auto
    from consecutive_cover[OF len this] obtain j where
      "Suc j < length sel" "sel ! j \<le> i" "i \<le> sel ! Suc j" by blast
    with seg[OF this] show ?thesis by (auto simp: sel(1))
  qed
  from out sel(1,3,4) chain_within_sorted[OF sel(5)] seg cover show ?thesis
    by blast
qed

lemma rdp_example_drop:
  "ramer_douglas_peucker [(0, 0), (4, 3), (4, 1), (4, 0)] (1 / 2) =
     Some (Inr [(0, 0), (4, 3), (4, 0)])"
proof -
  have s0: "rdp_scan [(0, 0), (4, 3), (4, 1), (4, 0)] = (1, 3)"
    by (simp add: rdp_scan_def rdp_scan_step_def perpendicular_distance_def upt_rec)
  have s1: "rdp_scan [(0, 0), (4, 3)] = (0, 0)"
    by (simp add: rdp_scan_def)
  have s2: "rdp_scan [(4, 3), (4, 1), (4, 0)] = (0, 0)"
    by (simp add: rdp_scan_def rdp_scan_step_def perpendicular_distance_def upt_rec)
  have r1: "ramer_douglas_peucker [(0, 0), (4, 3)] (1 / 2) = Some (Inr [(0, 0), (4, 3)])"
    using rdp_base[of "[(0, 0), (4, 3)]" "1 / 2"] s1 by simp
  have r2: "ramer_douglas_peucker [(4, 3), (4, 1), (4, 0)] (1 / 2) = Some (Inr [(4, 3), (4, 0)])"
    using rdp_base[of "[(4, 3), (4, 1), (4, 0)]" "1 / 2"] s2 by simp
  show ?thesis
    using rdp_rec[of "1 / 2" "[(0, 0), (4, 3), (4, 1), (4, 0)]" "[(0, 0), (4, 3)]" "[(4, 3), (4, 0)]"]
      s0 r1 r2 by simp
qed

theorem rdp_within_tolerance_witness:
  "\<exists>out sel. ramer_douglas_peucker [(0, 0), (4, 3), (4, 1), (4, 0)] (1 / 2) = Some (Inr out) \<and>
      out = [(0, 0), (4, 3), (4, 0)] \<and>
      out = map (nth [(0, 0), (4, 3), (4, 1), (4, 0)]) sel \<and> sorted_wrt (<) sel \<and> hd sel = 0 \<and>
      last sel = length [(0, 0), (4, 3), (4, 1), (4, 0) :: point] - 1 \<and>
      (\<forall>j. Suc j < length sel \<longrightarrow>
         (\<forall>i. sel ! j \<le> i \<and> i \<le> sel ! Suc j \<longrightarrow>
            perpendicular_distance ([(0, 0), (4, 3), (4, 1), (4, 0)] ! i) (out ! j) (out ! Suc j)
              \<le> 1 / 2)) \<and>
      (\<forall>i<length [(0, 0), (4, 3), (4, 1), (4, 0) :: point]. \<exists>j. Suc j < length out \<and>
         perpendicular_distance ([(0, 0), (4, 3), (4, 1), (4, 0)] ! i) (out ! j) (out ! Suc j)
           \<le> 1 / 2)"
proof -
  have "2 \<le> length [(0, 0), (4, 3), (4, 1), (4, 0) :: point]" "(0::real) \<le> 1 / 2"
    by simp_all
  from rdp_within_tolerance[OF this] obtain out sel where
    h: "ramer_douglas_peucker [(0, 0), (4, 3), (4, 1), (4, 0)] (1 / 2) = Some (Inr out) \<and>
      out = map (nth [(0, 0), (4, 3), (4, 1), (4, 0)]) sel \<and> sorted_wrt (<) sel \<and> hd sel = 0 \<and>
      last sel = length [(0, 0), (4, 3), (4, 1), (4, 0) :: point] - 1 \<and>
      (\<forall>j. Suc j < length sel \<longrightarrow>
         (\<forall>i. sel ! j \<le> i \<and> i \<le> sel ! Suc j \<longrightarrow>
            perpendicular_distance ([(0, 0), (4, 3), (4, 1), (4, 0)] ! i) (out ! j) (out ! Suc j)
              \<le> 1 / 2)) \<and>
      (\<forall>i<length [(0, 0), (4, 3), (4, 1), (4, 0) :: point]. \<exists>j. Suc j < length out \<and>
         perpendicular_distance ([(0, 0), (4, 3), (4, 1), (4, 0)] ! i) (out ! j) (out ! Suc j)
           \<le> 1 / 2)"
    by blast
  then have "out = [(0, 0), (4, 3), (4, 0)]"
    using rdp_example_drop by simp
  with h show ?thesis
    by (intro exI[of _ out] exI[of _ sel] conjI) (elim conjE, assumption)+
qed

text \<open>
  Claim C3, for tolerances \<open>epsilon \<ge> 0\<close>: on a list of at least two points
  \<open>ramer_douglas_peucker\<close> returns a list on which it returns the same list again.
  For a negative tolerance the claim fails: the call never returns.
\<close>

theorem rdp_idempotent:
  assumes "2 \<le> length points" "0 \<le> epsilon"
  shows "\<exists>out. ramer_douglas_peucker points epsilon = Some (Inr out) \<and>
           ramer_douglas_peucker out epsilon = Some (Inr out)"
proof -
  from assms(1) have "points \<noteq> []" by auto
  then show ?thesis using assms(2) by (rule rdp_returns_idem)
qed

lemma rdp_example_collapse:
  "ramer_douglas_peucker [(0, 0), (2, 1), (4, 0)] 2 = Some (Inr [(0, 0), (4, 0)])"
proof -
  have "rdp_scan [(0, 0), (2, 1), (4, 0)] = (1, 1)"
    by (simp add: rdp_scan_def rdp_scan_step_def perpendicular_distance_def upt_rec)
  then show ?thesis
    using rdp_base[of "[(0, 0), (2, 1), (4, 0)]" 2] by simp
qed

theorem rdp_idempotent_witness:
  "\<exists>out. ramer_douglas_peucker [(0, 0), (2, 1), (4, 0)] 2 = Some (Inr out) \<and>
     out = [(0, 0), (4, 0)] \<and> ramer_douglas_peucker out 2 = Some (Inr out)"
proof -
  have "2 \<le> length [(0, 0), (2, 1), (4, 0) :: point]" "(0::real) \<le> 2"
    by simp_all
  from rdp_idempotent[OF this] obtain out where
    h: "ramer_douglas_peucker [(0, 0), (2, 1), (4, 0)] 2 = Some (Inr out)"
      "ramer_douglas_peucker out 2 = Some (Inr out)"
    by blast
  from h(1) have "out = [(0, 0), (4, 0)]"
    using rdp_example_collapse by simp
  with h show ?thesis by blast
qed

theorem rdp_idempotent_counterexample:
  "ramer_douglas_peucker [(0, 0), (1, 0)] (- 1) = None"
  by (rule rdp_negative_diverges) simp

text \<open>
  Claim C9, for tolerances \<open>epsilon \<ge> 0\<close>: on a list of at least two points
  \<open>ramer_douglas_peucker\<close> returns a subsequence of the input, of at least two points,
  whose first and last elements are the first and last elements of the input. For a
  negative tolerance the claim fails: the call never returns.
\<close>

theorem rdp_subsequence:
  assumes "2 \<le> length points" "0 \<le> epsilon"
  shows "\<exists>out. ramer_douglas_peucker points epsilon = Some (Inr out) \<and>
           subseq out points \<and> 2 \<le> length out \<and> hd out = hd points \<and> last out = last points"
proof -
  from assms(1) have "points \<noteq> []" by auto
  from rdp_returns_shape[OF this assms(2)] assms(1) show ?thesis
    unfolding rdp_shape_def by blast
qed

lemma rdp_example_keep:
  "ramer_douglas_peucker [(0, 0), (2, 3), (4, 0)] 1 = Some (Inr [(0, 0), (2, 3), (4, 0)])"
proof -
  have s0: "rdp_scan [(0, 0), (2, 3), (4, 0)] = (1, 3)"
    by (simp add: rdp_scan_def rdp_scan_step_def perpendicular_distance_def upt_rec)
  have r1: "ramer_douglas_peucker [(0, 0), (2, 3)] 1 = Some (Inr [(0, 0), (2, 3)])"
    by (rule rdp_idem_base) simp
  have r2: "ramer_douglas_peucker [(2, 3), (4, 0)] 1 = Some (Inr [(2, 3), (4, 0)])"
    by (rule rdp_idem_base) simp
  show ?thesis
    using rdp_rec[of 1 "[(0, 0), (2, 3), (4, 0)]" "[(0, 0), (2, 3)]" "[(2, 3), (4, 0)]"]
      s0 r1 r2 by simp
qed

theorem rdp_subsequence_witness:
  "\<exists>out. ramer_douglas_peucker [(0, 0), (2, 3), (4, 0)] 1 = Some (Inr out) \<and>
     out = [(0, 0), (2, 3), (4, 0)] \<and> subseq out [(0, 0), (2, 3), (4, 0)] \<and>
     2 \<le> length out \<and> hd out = hd [(0, 0), (2, 3), (4, 0)] \<and>
     last out = last [(0, 0), (2, 3), (4, 0)]"
proof -
  have "2 \<le> length [(0, 0), (2, 3), (4, 0) :: point]" "(0::real) \<le> 1"
    by simp_all
  from rdp_subsequence[OF this] obtain out where
    h: "ramer_douglas_peucker [(0, 0), (2, 3), (4, 0)] 1 = Some (Inr out)"
      "subseq out [(0, 0), (2, 3), (4, 0)]" "2 \<le> length out"
      "hd out = hd [(0, 0), (2, 3), (4, 0)]" "last out = last [(0, 0), (2, 3), (4, 0)]"
    by blast
  from h(1) have "out = [(0, 0), (2, 3), (4, 0)]"
    using rdp_example_keep by simp
  with h show ?thesis by blast
qed

theorem rdp_subsequence_counterexample:
  "ramer_douglas_peucker [(0, 0), (3, 4), (6, 0)] (- 2) = None"
  by (rule rdp_negative_diverges) simp

section \<open>Properties of the dedup pre-pass\<close>

lemma dedup_step_shape:
  assumes "dedup \<noteq> []"
  shows "dedup_step p dedup \<noteq> []" "hd (dedup_step p dedup) = hd dedup"
    "hypot (fst p - fst (last (dedup_step p dedup))) (snd p - snd (last (dedup_step p dedup)))
       \<le> 1 / 2"
  using assms by (auto simp: dedup_step_def)

lemma dedup_fold_shape:
  assumes "dedup \<noteq> []"
  shows "fold dedup_step ps dedup \<noteq> [] \<and> hd (fold dedup_step ps dedup) = hd dedup \<and>
    (ps \<noteq> [] \<longrightarrow>
       hypot (fst (last ps) - fst (last (fold dedup_step ps dedup)))
             (snd (last ps) - snd (last (fold dedup_step ps dedup))) \<le> 1 / 2)"
  using assms
proof (induction ps arbitrary: dedup)
  case Nil
  then show ?case by simp
next
  case (Cons p ps)
  from dedup_step_shape[OF Cons.prems, of p] Cons.IH[of "dedup_step p dedup"]
  show ?case by (cases "ps = []") simp_all
qed

lemma dedup_last_check_idle:
  assumes "dedup \<noteq> []"
    "hypot (fst p - fst (last dedup)) (snd p - snd (last dedup)) \<le> 1 / 2"
  shows "dedup_step p dedup = dedup"
  using assms by (simp add: dedup_step_def)

text \<open>
  What the pre-pass computes on a list that is not empty: the result of the loop
  (the check after the loop repeats the test the loop made on the same point and
  appends nothing); its first point is the first input point, and its last point is
  within 0.5 of the last input point.
\<close>

lemma dedup_prepass_shape:
  assumes "points \<noteq> []"
  shows "\<exists>dedup. simplify_dedup points = Inr dedup \<and> dedup \<noteq> [] \<and>
      dedup = fold dedup_step (drop 1 points) [points ! 0] \<and>
      hd dedup = hd points \<and>
      hypot (fst (last points) - fst (last dedup)) (snd (last points) - snd (last dedup)) \<le> 1 / 2"
proof -
  define dedup where "dedup = fold dedup_step (drop 1 points) [points ! 0]"
  from assms obtain p ps where points: "points = p # ps" by (cases points) auto
  have shape: "dedup \<noteq> []" "hd dedup = hd points"
    using dedup_fold_shape[of "[points ! 0]" "drop 1 points"] points
    by (simp_all add: dedup_def)
  have near: "hypot (fst (last points) - fst (last dedup)) (snd (last points) - snd (last dedup))
      \<le> 1 / 2"
  proof (cases "ps = []")
    case True
    with points show ?thesis by (simp add: dedup_def hypot_def)
  next
    case False
    with dedup_fold_shape[of "[p]" ps] points show ?thesis
      by (simp add: dedup_def)
  qed
  have "simplify_dedup points = Inr dedup"
    using assms dedup_last_check_idle[OF shape(1) near]
    by (simp add: simplify_dedup_def dedup_def)
  with shape near show ?thesis
    by (auto simp: dedup_def)
qed

lemma dedup_prepass_example:
  "\<exists>dedup. simplify_dedup [(0, 0), (1 / 5, 0), (1, 0)] = Inr dedup \<and> dedup = [(0, 0), (1, 0)] \<and>
     hd dedup = (0, 0) \<and> hypot (1 - fst (last dedup)) (0 - snd (last dedup)) \<le> 1 / 2"
proof -
  have "[(0, 0), (1 / 5, 0), (1, 0) :: point] \<noteq> []" by simp
  from dedup_prepass_shape[OF this] obtain dedup where
    h: "simplify_dedup [(0, 0), (1 / 5, 0), (1, 0)] = Inr dedup \<and> dedup \<noteq> [] \<and>
      dedup = fold dedup_step (drop 1 [(0, 0), (1 / 5, 0), (1, 0)])
                [[(0, 0), (1 / 5, 0), (1, 0)] ! 0] \<and>
      hd dedup = hd [(0, 0), (1 / 5, 0), (1, 0)] \<and>
      hypot (fst (last [(0, 0), (1 / 5, 0), (1, 0) :: point]) - fst (last dedup))
            (snd (last [(0, 0), (1 / 5, 0), (1, 0) :: point]) - snd (last dedup)) \<le> 1 / 2" ..
  have "simplify_dedup [(0, 0), (1 / 5, 0), (1, 0)] = Inr [(0, 0), (1, 0)]"
    by (simp add: simplify_dedup_def dedup_step_def)
  with h have d: "dedup = [(0, 0), (1, 0)]" by simp
  from h have a: "simplify_dedup [(0, 0), (1 / 5, 0), (1, 0)] = Inr dedup"
    by (rule conjunct1)
  from h have "hd dedup = hd [(0, 0), (1 / 5, 0), (1, 0)]"
    by (elim conjE)
  then have b: "hd dedup = (0, 0)" by simp
  from h have "hypot (fst (last [(0, 0), (1 / 5, 0), (1, 0) :: point]) - fst (last dedup))
            (snd (last [(0, 0), (1 / 5, 0), (1, 0) :: point]) - snd (last dedup)) \<le> 1 / 2"
    by (elim conjE)
  then have c: "hypot (1 - fst (last dedup)) (0 - snd (last dedup)) \<le> 1 / 2" by simp
  from a d b c show ?thesis
    by (intro exI[of _ dedup] conjI)
qed

text \<open>
  Claim C2. The first point is kept (see above), but the very last point is not
  always kept: on \<open>[(0,0), (1,0), (1.2,0)]\<close> the last point is 0.2 from the point
  kept before it, the loop skips it, the check of lines 169-170 that should append
  it tests the same distance again and appends nothing, and the result
  \<open>[(0,0), (1,0)]\<close> does not hold the last point.
\<close>

theorem dedup_drops_last_point:
  "simplify_dedup [(0, 0), (1, 0), (6 / 5, 0)] = Inr [(0, 0), (1, 0)] \<and>
   dedup_step (6 / 5, 0) [(0, 0), (1, 0)] = [(0, 0), (1, 0)] \<and>
   hypot (6 / 5 - 1) (0 - 0) \<le> 1 / 2 \<and>
   (6 / 5, 0) \<notin> set [(0, 0), (1, 0) :: point]"
  by (simp add: simplify_dedup_def dedup_step_def)

section \<open>Properties of the tokenizer and sampler\<close>

lemmas regex_defs = is_letter_def is_digit_def is_sign_def match_sign_def match_mantissa_def
  match_exponent_def match_number_def

lemmas float_defs = py_float_def literal_val_def digits_val_def digit_val_def exponent_val_def

lemma tokenize_closed_triangle:
  "tokenize_path ''M0,0 L10,0 L10,10 Z'' =
     [''M'', ''0'', ''0'', ''L'', ''10'', ''0'', ''L'', ''10'', ''10'', ''Z'']"
  by (simp add: regex_defs)

lemma py_float_0: "py_float ''0'' = Inr 0"
  by (simp add: regex_defs float_defs)

lemma py_float_10: "py_float ''10'' = Inr 10"
  by (simp add: regex_defs float_defs)

lemma upper_Z: "upper ''Z'' = ''Z''"
  by (simp add: upper_def upper_char_def)

text \<open>
  Claim C7. Parsing the path data \<open>M0,0 L10,0 L10,10 Z\<close> gives one polygon, the closed
  four-point polygon \<open>[(0,0), (10,0), (10,10), (0,0)]\<close>: \<open>Z\<close> appends the start point of
  the subpath and the polygon in progress is flushed when the tokens run out.
\<close>

theorem parse_closed_triangle:
  "parse_svg_paths_basic ''M0,0 L10,0 L10,10 Z'' = Inr [[(0, 0), (10, 0), (10, 10), (0, 0)]]"
  unfolding parse_svg_paths_basic_def tokenize_closed_triangle
  by (simp add: py_float_0 py_float_10 upper_Z flush_def eval_nat_numeral)

section \<open>Properties of the classifier\<close>

lemma aspect_ratio_total: "aspect_ratio w h = Inr (if h \<noteq> 0 then w / h else 0)"
  by (simp add: aspect_ratio_def py_truediv_def)

lemma classify_alt:
  "classify d w h cx cy =
     (if is_dot w h (if h \<noteq> 0 then w / h else 0) then Inr (Dot (cx, cy, (w + h) / 4))
      else (case parse_svg_paths_basic d of
              Inl e \<Rightarrow> Inl e
            | Inr parsed_polys \<Rightarrow> Inr (ArrowFragment parsed_polys)))"
  by (simp add: classify_def aspect_ratio_total)

lemma classify_dot_iff:
  "classify d w h cx cy = Inr (Dot c) \<longleftrightarrow>
     c = (cx, cy, (w + h) / 4) \<and> is_dot w h (if h \<noteq> 0 then w / h else 0)"
  by (auto simp: classify_def aspect_ratio_total split: sum.splits)

lemma next_float_raises: "next_float ts = Raised e \<Longrightarrow> e = ValueError"
  by (cases ts) (auto simp: py_float_def split: option.splits if_splits sum.splits)

lemma next_floats_raises: "next_floats n ts = Raised e \<Longrightarrow> e = ValueError"
proof (induction n arbitrary: ts)
  case 0
  then show ?case by simp
next
  case (Suc n)
  then show ?case
    by (auto split: fetch.splits dest: next_float_raises)
qed

lemma parse_loop_raises: "parse_loop ts st = Inl e \<Longrightarrow> e = ValueError"
proof (induction ts st rule: parse_loop.induct)
  case (1 st)
  then show ?case by simp
next
  case (2 cmd ts st)
  show ?case
  proof (cases "cmd = ''M''")
    case True
    with "2.IH"(1) "2.prems" show ?thesis
      by (auto split: fetch.splits dest: next_floats_raises)
  next
    case notM: False
    show ?thesis
    proof (cases "cmd = ''L''")
      case True
      with notM "2.IH"(2) "2.prems" show ?thesis
        by (auto split: fetch.splits dest: next_floats_raises)
    next
      case notL: False
      show ?thesis
      proof (cases "cmd = ''C''")
        case True
        with notM notL "2.IH"(3) "2.prems" show ?thesis
          by (auto split: fetch.splits dest: next_floats_raises)
      next
        case notC: False
        with notM notL "2.IH"(4,5) "2.prems" show ?thesis
          by (auto split: if_splits)
      qed
    qed
  qed
qed

lemma parse_raises: "parse_svg_paths_basic d = Inl e \<Longrightarrow> e = ValueError"
  unfolding parse_svg_paths_basic_def by (rule parse_loop_raises)


lemma parse_segment_10_20:
  "parse_svg_paths_basic ''M0,0 L10,20'' = Inr [[(0, 0), (10, 20)]]"
  by code_simp

lemma extract_segment_10_20:
  "extract_path ''#000000'' ''M0,0 L10,20'' = Inr (ArrowFragment [[(0, 0), (10, 20)]])"
  by code_simp

lemma extract_segment_20_22:
  "extract_path ''#000000'' ''M0,0 L20,22'' = Inr (Dot (10, 11, 21 / 2))"
  by code_simp

text \<open>
  Claim C4, as the code has it: a path that reaches the classification (lines 107-117)
  is a dot exactly when its width and height are both below 30 and the aspect ratio
  \<open>w/h\<close> (0 when \<open>h = 0\<close>) is strictly between 0.5 and 2.0; a dot records
  \<open>(cx, cy, (w+h)/4)\<close>; a box of width 20 and height 22 is a dot, one of width 40 and
  height 10 is not.
\<close>

theorem dot_classification:
  "((\<exists>c. classify d w h cx cy = Inr (Dot c)) \<longleftrightarrow>
      (w < 30 \<and> h < 30 \<and> h \<noteq> 0 \<and> 1 / 2 < w / h \<and> w / h < 2)) \<and>
   (classify d w h cx cy = Inr (Dot c) \<longrightarrow> c = (cx, cy, (w + h) / 4)) \<and>
   classify d 20 22 cx cy = Inr (Dot (cx, cy, 21 / 2)) \<and>
   (\<forall>c. classify d 40 10 cx cy \<noteq> Inr (Dot c))"
proof -
  have "(\<exists>c. classify d w h cx cy = Inr (Dot c)) \<longleftrightarrow>
      (w < 30 \<and> h < 30 \<and> h \<noteq> 0 \<and> 1 / 2 < w / h \<and> w / h < 2)"
    unfolding classify_dot_iff by (auto simp: is_dot_def)
  moreover have "classify d 20 22 cx cy = Inr (Dot (cx, cy, 21 / 2))"
    unfolding classify_dot_iff by (simp add: is_dot_def)
  moreover have "\<forall>c. classify d 40 10 cx cy \<noteq> Inr (Dot c)"
    unfolding classify_dot_iff by (simp add: is_dot_def)
  ultimately show ?thesis
    by (simp add: classify_dot_iff)
qed

theorem dot_classification_witness:
  "extract_path ''#000000'' ''M0,0 L20,22'' = Inr (Dot (10, 11, 21 / 2)) \<and>
   classify ''M0,0 L20,22'' 20 22 10 11 = Inr (Dot (10, 11, 21 / 2)) \<and>
   (\<exists>c. classify ''M0,0 L20,22'' 20 22 10 11 = Inr (Dot c)) =
     ((20::real) < 30 \<and> (22::real) < 30 \<and> (22::real) \<noteq> 0 \<and> (1 / 2 :: real) < 20 / 22 \<and>
      (20 / 22 :: real) < 2)"
proof -
  note inst = dot_classification[of "''M0,0 L20,22''" 20 22 10 11 "(10, 11, 21 / 2)"]
  from inst have iff: "(\<exists>c. classify ''M0,0 L20,22'' 20 22 10 11 = Inr (Dot c)) =
     ((20::real) < 30 \<and> (22::real) < 30 \<and> (22::real) \<noteq> 0 \<and> (1 / 2 :: real) < 20 / 22 \<and>
      (20 / 22 :: real) < 2)"
    by (rule conjunct1)
  from inst have "classify ''M0,0 L20,22'' 20 22 10 11 = Inr (Dot (10, 11, 21 / 2))"
    by (elim conjE)
  with extract_segment_20_22 iff show ?thesis
    by (intro conjI)
qed

theorem dot_classification_counterexample:
  "extract_path ''#000000'' ''M0,0 L10,20'' = Inr (ArrowFragment [[(0, 0), (10, 20)]]) \<and>
   classify ''M0,0 L10,20'' 10 20 5 10 = Inr (ArrowFragment [[(0, 0), (10, 20)]]) \<and>
   (10::real) < 30 \<and> (20::real) < 30 \<and> (1 / 2 :: real) \<le> 10 / 20 \<and> (10 / 20 :: real) \<le> 2"
  by (simp add: extract_segment_10_20 classify_alt is_dot_def parse_segment_10_20)

text \<open>
  Claim C10. The aspect ratio is computed for every width and height without a
  division by zero; for height 0 it is 0, and a path of height 0 that reaches the
  classification takes the arrow-fragment branch: it is never a dot, and no
  ZeroDivisionError is raised for any width and height.
\<close>

theorem zero_height_never_dot:
  "(\<exists>ratio. aspect_ratio w h = Inr ratio) \<and>
   aspect_ratio w 0 = Inr 0 \<and>
   \<not> is_dot w 0 0 \<and>
   classify d w 0 cx cy =
     (case parse_svg_paths_basic d of
        Inl e \<Rightarrow> Inl e
      | Inr parsed_polys \<Rightarrow> Inr (ArrowFragment parsed_polys)) \<and>
   classify d w 0 cx cy \<noteq> Inr (Dot c) \<and>
   classify d w h cx cy \<noteq> Inl ZeroDivisionError"
proof -
  have total: "\<exists>ratio. aspect_ratio w h = Inr ratio"
    by (simp add: aspect_ratio_total)
  have zero: "aspect_ratio w 0 = Inr 0"
    by (simp add: aspect_ratio_total)
  have no_div: "classify d w h cx cy \<noteq> Inl ZeroDivisionError"
  proof (cases "parse_svg_paths_basic d")
    case (Inl e)
    then have "e = ValueError" by (rule parse_raises)
    with Inl show ?thesis by (simp add: classify_alt)
  next
    case (Inr parsed_polys)
    then show ?thesis by (simp add: classify_alt)
  qed
  have not_dot: "\<not> is_dot w 0 0"
    by (simp add: is_dot_def)
  then have arrow: "classify d w 0 cx cy =
     (case parse_svg_paths_basic d of
        Inl e \<Rightarrow> Inl e
      | Inr parsed_polys \<Rightarrow> Inr (ArrowFragment parsed_polys))"
    by (simp add: classify_alt)
  have never: "classify d w 0 cx cy \<noteq> Inr (Dot c)"
    unfolding classify_dot_iff by (simp add: is_dot_def)
  from total zero not_dot arrow never no_div show ?thesis
    by (intro conjI)
qed

section \<open>Properties of the parser\<close>

text \<open>
  Claim C5, as the code has it: there is no unsupported-command error. A token in
  command position that is none of \<open>M\<close>, \<open>L\<close>, \<open>C\<close>, \<open>Z\<close>, \<open>z\<close> is skipped with the
  state unchanged and the loop goes on with the next token; the only exception the
  parser can raise is the ValueError of \<open>float\<close>.
\<close>

theorem parse_unknown_command_skipped:
  "(cmd \<noteq> ''M'' \<and> cmd \<noteq> ''L'' \<and> cmd \<noteq> ''C'' \<and> upper cmd \<noteq> ''Z'' \<longrightarrow>
      parse_loop (cmd # ts) st = parse_loop ts st) \<and>
   (parse_svg_paths_basic d = Inl e \<longrightarrow> e = ValueError)"
  using parse_raises[of d e] by simp

lemma parse_with_H:
  "parse_svg_paths_basic ''M0,0 H5 L10,10'' = Inr [[(0, 0), (10, 10)]]"
  by code_simp

lemma parse_M_L: "parse_svg_paths_basic ''M L'' = Inl ValueError"
  by code_simp

theorem parse_unknown_command_skipped_witness:
  "parse_loop (''H'' # [''5'', ''L'', ''10'', ''10''])
       \<lparr>polygons = [], current_poly = [(0, 0)], current_pos = (0, 0), start_pos = (0, 0)\<rparr> =
     parse_loop [''5'', ''L'', ''10'', ''10'']
       \<lparr>polygons = [], current_poly = [(0, 0)], current_pos = (0, 0), start_pos = (0, 0)\<rparr> \<and>
   parse_svg_paths_basic ''M L'' = Inl ValueError"
proof -
  have u: "upper ''H'' \<noteq> ''Z''"
    by (simp add: upper_def upper_char_def)
  have "parse_loop (''H'' # [''5'', ''L'', ''10'', ''10''])
       \<lparr>polygons = [], current_poly = [(0, 0)], current_pos = (0, 0), start_pos = (0, 0)\<rparr> =
     parse_loop [''5'', ''L'', ''10'', ''10'']
       \<lparr>polygons = [], current_poly = [(0, 0)], current_pos = (0, 0), start_pos = (0, 0)\<rparr>"
    using parse_unknown_command_skipped[of "''H''" "[''5'', ''L'', ''10'', ''10'']"
        "\<lparr>polygons = [], current_poly = [(0, 0)], current_pos = (0, 0), start_pos = (0, 0)\<rparr>"
        "''M L''" ValueError] u
    by (simp del: parse_loop.simps)
  with parse_M_L show ?thesis by (intro conjI)
qed

theorem parse_unknown_command_counterexample:
  "parse_svg_paths_basic ''M0,0 H5 L10,10'' = Inr [[(0, 0), (10, 10)]]"
  by (rule parse_with_H)

section \<open>Properties of the symmetry reconstructor\<close>

lemma unique_fold_nonempty:
  "acc \<noteq> [] \<Longrightarrow> fold (\<lambda>p u. if p \<noteq> last u then u @ [p] else u) ps acc \<noteq> []"
  by (induction ps arbitrary: acc) auto

lemma unique_points_nonempty: "points \<noteq> [] \<Longrightarrow> unique_points_of points \<noteq> []"
  by (simp add: unique_points_of_def unique_fold_nonempty)

lemma tip_fold_less:
  "best < n \<Longrightarrow> \<forall>i\<in>set is. i < n \<Longrightarrow>
   fold (\<lambda>i best. if fst (u ! i) > fst (u ! best) then i else best) is best < n"
  by (induction "is" arbitrary: best) auto

lemma tip_index_less: "u \<noteq> [] \<Longrightarrow> tip_index u < length u"
  unfolding tip_index_def by (rule tip_fold_less) auto

lemma rotated_length: "length (rotated_of u) = length u"
  by (simp add: rotated_of_def)

lemma rotated_first: "u \<noteq> [] \<Longrightarrow> rotated_of u ! 0 = tip_of u"
  using tip_index_less[of u]
  by (simp add: rotated_of_def tip_of_def nth_append)

lemma forward_top_nonempty:
  assumes "u \<noteq> []" "forward_is_top u"
  shows "fst (top_arm u) \<noteq> []"
proof -
  let ?r = "rotated_of u"
  have long: "1 < length ?r"
  proof (rule ccontr)
    assume "\<not> 1 < length ?r"
    with assms(2) rotated_first[OF assms(1)] show False
      by (simp add: forward_is_top_def Let_def)
  qed
  with assms(2) have next_top: "snd (?r ! 1) < snd (tip_of u)"
    by (simp add: forward_is_top_def Let_def)
  from long obtain a b rest where r: "?r = a # b # rest"
    by (cases ?r; cases "tl ?r"; auto)
  with next_top have "takeWhile (\<lambda>p. \<not> snd p > snd (tip_of u) + 1 / 10) (drop 1 ?r) \<noteq> []"
    by simp
  with assms(2) show ?thesis
    by (simp add: top_arm_def Let_def)
qed

lemma update_last: "arm \<noteq> [] \<Longrightarrow> arm[length arm - 1 := x] = butlast arm @ [x]"
  by (induction arm rule: rev_induct) auto

text \<open>
  Claim C6. When the top arm collected is not empty, the polygon returned is the tip,
  the top arm with its last point (the notch) moved onto the axis of the tip, the
  reflections \<open>y' = 2 * axis_y - y\<close> of the top arm without the notch in reverse
  order, and the tip again: it starts and ends at the tip, and the point \<open>i\<close> places
  after the notch is the mirror image of the point \<open>i + 1\<close> places before it.
\<close>

theorem symmetrize_output:
  assumes "points \<noteq> []" "fst (top_arm (unique_points_of points)) \<noteq> []"
  shows "let unique_points = unique_points_of points;
             tip = tip_of unique_points; axis_y = snd tip;
             top_points = fst (top_arm unique_points); n = length top_points;
             out = fst (symmetrize_arrow points)
         in out = [tip] @ butlast top_points @ [(fst (last top_points), axis_y)] @
                  map (\<lambda>p. (fst p, 2 * axis_y - snd p)) (rev (butlast top_points)) @ [tip] \<and>
            hd out = tip \<and> last out = tip \<and> length out = 2 * n + 1 \<and>
            (\<forall>i<n - 1. fst (out ! (n + 1 + i)) = fst (out ! (n - 1 - i)) \<and>
                       snd (out ! (n + 1 + i)) = 2 * axis_y - snd (out ! (n - 1 - i)))"
proof -
  define u where "u = unique_points_of points"
  define tip where "tip = tip_of u"
  define axis_y where "axis_y = snd tip"
  define arm where "arm = fst (top_arm u)"
  define n where "n = length arm"
  define notch where "notch = (fst (last arm), axis_y)"
  define mirror where "mirror = (\<lambda>p :: point. (fst p, 2 * axis_y - snd p))"
  define out where "out = fst (symmetrize_arrow points)"
  from assms have u: "u \<noteq> []" and arm: "arm \<noteq> []"
    by (simp_all add: u_def arm_def unique_points_nonempty)
  have upd: "arm[length arm - 1 := notch] = butlast arm @ [notch]"
    using arm by (rule update_last)
  have out_eq: "out = [tip] @ butlast arm @ [notch] @ map mirror (rev (butlast arm)) @ [tip]"
    using u arm upd unfolding out_def symmetrize_arrow_def Let_def
    by (simp add: u_def[symmetric] arm_def[symmetric] tip_def[symmetric] axis_y_def[symmetric]
        notch_def[symmetric] mirror_def[symmetric])
  from arm have n: "0 < n" by (simp add: n_def)
  have len: "length out = 2 * n + 1"
    using n by (simp add: out_eq n_def)
  have pair: "out ! (n + 1 + i) = mirror (out ! (n - 1 - i))" if "i < n - 1" for i
  proof -
    from that have i: "i < length arm - 1" by (simp add: n_def)
    have "out ! (n + 1 + i) = (map mirror (rev (butlast arm)) @ [tip]) ! i"
    proof -
      have "out = (tip # butlast arm @ [notch]) @ (map mirror (rev (butlast arm)) @ [tip])"
        by (simp add: out_eq)
      moreover have "length (tip # butlast arm @ [notch]) = n + 1"
        using n by (simp add: n_def)
      ultimately show ?thesis
        by (metis nth_append_length_plus)
    qed
    also have "\<dots> = mirror (rev (butlast arm) ! i)"
      using i by (simp add: nth_append)
    also have "rev (butlast arm) ! i = butlast arm ! (length arm - 2 - i)"
      using i by (simp add: rev_nth)
    also have "butlast arm ! (length arm - 2 - i) = out ! (n - 1 - i)"
    proof -
      from i have "n - 1 - i = Suc (length arm - 2 - i)" "length arm - 2 - i < length arm - 1"
        by (simp_all add: n_def)
      then show ?thesis
        by (simp add: out_eq nth_append)
    qed
    finally show ?thesis .
  qed
  have "out = [tip] @ butlast arm @ [(fst (last arm), axis_y)] @
            map (\<lambda>p. (fst p, 2 * axis_y - snd p)) (rev (butlast arm)) @ [tip] \<and>
      hd out = tip \<and> last out = tip \<and> length out = 2 * n + 1 \<and>
      (\<forall>i<n - 1. fst (out ! (n + 1 + i)) = fst (out ! (n - 1 - i)) \<and>
                 snd (out ! (n + 1 + i)) = 2 * axis_y - snd (out ! (n - 1 - i)))"
    using out_eq len pair by (simp add: mirror_def notch_def)
  then show ?thesis
    unfolding Let_def u_def tip_def axis_y_def arm_def n_def out_def .
qed


lemma chevron_top_arm:
  "fst (top_arm (unique_points_of [(100, 50), (80, 30), (60, 50), (80, 75)])) = [(80, 30), (60, 50)]"
  by code_simp

lemma chevron_tip:
  "tip_of (unique_points_of [(100, 50), (80, 30), (60, 50), (80, 75)]) = (100, 50)"
  by code_simp

theorem symmetrize_output_witness:
  "fst (top_arm (unique_points_of [(100, 50), (80, 30), (60, 50), (80, 75)])) = [(80, 30), (60, 50)] \<and>
   tip_of (unique_points_of [(100, 50), (80, 30), (60, 50), (80, 75)]) = (100, 50) \<and>
   fst (symmetrize_arrow [(100, 50), (80, 30), (60, 50), (80, 75)]) =
     [(100, 50), (80, 30), (60, 50), (80, 70), (100, 50)]"
proof -
  have "[(100, 50), (80, 30), (60, 50), (80, 75) :: point] \<noteq> []"
    by simp
  moreover have "fst (top_arm (unique_points_of [(100, 50), (80, 30), (60, 50), (80, 75)])) \<noteq> []"
    by (simp add: chevron_top_arm)
  ultimately have r: "let unique_points = unique_points_of [(100, 50), (80, 30), (60, 50), (80, 75)];
             tip = tip_of unique_points; axis_y = snd tip;
             top_points = fst (top_arm unique_points); n = length top_points;
             out = fst (symmetrize_arrow [(100, 50), (80, 30), (60, 50), (80, 75)])
         in out = [tip] @ butlast top_points @ [(fst (last top_points), axis_y)] @
                  map (\<lambda>p. (fst p, 2 * axis_y - snd p)) (rev (butlast top_points)) @ [tip] \<and>
            hd out = tip \<and> last out = tip \<and> length out = 2 * n + 1 \<and>
            (\<forall>i<n - 1. fst (out ! (n + 1 + i)) = fst (out ! (n - 1 - i)) \<and>
                       snd (out ! (n + 1 + i)) = 2 * axis_y - snd (out ! (n - 1 - i)))"
    by (rule symmetrize_output)
  from r[unfolded Let_def chevron_top_arm chevron_tip]
  have "fst (symmetrize_arrow [(100, 50), (80, 30), (60, 50), (80, 75)]) =
     [(100, 50), (80, 30), (60, 50), (80, 70), (100, 50)]"
    by simp
  with chevron_top_arm chevron_tip show ?thesis
    by (intro conjI)
qed

text \<open>
  What the code does when the top arm collected is empty: the input is returned. The
  forward walk never collects an empty arm; a line has been printed only when the
  geometric filter was taken.
\<close>

lemma symmetrize_empty_arm_returns_input:
  assumes "points \<noteq> []" "fst (top_arm (unique_points_of points)) = []"
  shows "fst (symmetrize_arrow points) = points \<and>
         \<not> forward_is_top (unique_points_of points) \<and>
         snd (symmetrize_arrow points) =
           (if backward_is_top (unique_points_of points) then [] else [warning_line])"
proof -
  from assms(1) have u: "unique_points_of points \<noteq> []"
    by (rule unique_points_nonempty)
  have nf: "\<not> forward_is_top (unique_points_of points)"
    using forward_top_nonempty[OF u] assms(2) by blast
  have "symmetrize_arrow points = (points, snd (top_arm (unique_points_of points)))"
    using u assms(2) by (simp add: symmetrize_arrow_def Let_def)
  moreover have "snd (top_arm (unique_points_of points)) =
      (if backward_is_top (unique_points_of points) then [] else [warning_line])"
    using nf by (simp add: top_arm_def Let_def)
  ultimately show ?thesis
    using nf by simp
qed

lemma flat_top_arm: "fst (top_arm (unique_points_of [(100, 50), (80, 60)])) = []"
  by code_simp

lemma flat_not_backward: "\<not> backward_is_top (unique_points_of [(100, 50), (80, 60)])"
  by code_simp

lemma symmetrize_empty_arm_example:
  "fst (top_arm (unique_points_of [(100, 50), (80, 60)])) = [] \<and>
   fst (symmetrize_arrow [(100, 50), (80, 60)]) = [(100, 50), (80, 60)] \<and>
   snd (symmetrize_arrow [(100, 50), (80, 60)]) = [warning_line]"
proof -
  have "[(100, 50), (80, 60) :: point] \<noteq> []"
    by simp
  from symmetrize_empty_arm_returns_input[OF this flat_top_arm] flat_not_backward flat_top_arm
  show ?thesis by simp
qed

text \<open>
  Claim C8. On \<open>[(10,0), (5,5), (0,-1)]\<close> the tip is \<open>(10,0)\<close> and its backward
  neighbour \<open>(0,-1)\<close>, the last point of the rotation, is above the axis, so the
  backward walk is taken. The walk of line 235 runs over \<open>reversed(rotated[:-1])\<close>:
  it leaves that neighbour out, starts at \<open>(5,5)\<close> below the axis and stops at once.
  The top arm is empty and the input is returned unchanged, but nothing is printed:
  the warning the claim asks for is missing.
\<close>

theorem symmetrize_silent_fail_safe:
  "backward_is_top (unique_points_of [(10, 0), (5, 5), (0, - 1)]) \<and>
   last (rotated_of (unique_points_of [(10, 0), (5, 5), (0, - 1)])) = (0, - 1) \<and>
   rev (butlast (rotated_of (unique_points_of [(10, 0), (5, 5), (0, - 1)]))) = [(5, 5), (10, 0)] \<and>
   fst (top_arm (unique_points_of [(10, 0), (5, 5), (0, - 1)])) = [] \<and>
   symmetrize_arrow [(10, 0), (5, 5), (0, - 1)] = ([(10, 0), (5, 5), (0, - 1)], [])"
  by code_simp

end
